theory Spec2Isabelle
  imports Complex_Main "HOL-Library.Monad_Syntax"
begin

section \<open>Strings and character classes\<close>

text \<open>
  Strings are lists of characters. The character classes are the ones the regular
  expressions of \<^verbatim>\<open>constants.ts\<close> and \<^verbatim>\<open>String.prototype.trim\<close> use, restricted
  to the characters below code 256: \<^verbatim>\<open>\s\<close> and \<^verbatim>\<open>trim\<close> share one set (white space
  and line terminators), \<^verbatim>\<open>.\<close> is every character that is no line terminator.
\<close>

definition is_digit :: "char \<Rightarrow> bool" where
  "is_digit c = (c \<in> set ''0123456789'')"

definition is_alnum :: "char \<Rightarrow> bool" where
  "is_alnum c =
     (c \<in> set ''abcdefghijklmnopqrstuvwxyzABCDEFGHIJKLMNOPQRSTUVWXYZ0123456789'')"

definition is_line_terminator :: "char \<Rightarrow> bool" where
  "is_line_terminator c = (c = CHR 0x0A \<or> c = CHR 0x0D)"

definition is_space :: "char \<Rightarrow> bool" where
  "is_space c =
     (c = CHR 0x09 \<or> c = CHR 0x0A \<or> c = CHR 0x0B \<or> c = CHR 0x0C \<or> c = CHR 0x0D
      \<or> c = CHR 0x20 \<or> c = CHR 0xA0)"

definition is_dot :: "char \<Rightarrow> bool" where
  "is_dot c = (\<not> is_line_terminator c)"

definition is_amount_char :: "char \<Rightarrow> bool" where
  "is_amount_char c = (is_digit c \<or> c = CHR '','' \<or> c = CHR ''.'')"

definition trim :: "string \<Rightarrow> string" where
  "trim s = rev (dropWhile is_space (rev (dropWhile is_space s)))"

text \<open>
  \<^verbatim>\<open>s.slice(-n)\<close> starts at \<open>max (length s - n) 0\<close> and \<^verbatim>\<open>s.slice(0, -n)\<close> ends there.
\<close>

definition slice_last :: "nat \<Rightarrow> string \<Rightarrow> string" where
  "slice_last n s = (if n \<le> length s then drop (length s - n) s else s)"

definition slice_but_last :: "nat \<Rightarrow> string \<Rightarrow> string" where
  "slice_but_last n s = (if n \<le> length s then take (length s - n) s else [])"

section \<open>Regular expressions\<close>

text \<open>
  The fragment of regular expressions the source uses: a sequence of literals,
  greedily quantified character classes (\<^verbatim>\<open>\s*\<close>, \<^verbatim>\<open>.+\<close>, \<^verbatim>\<open>\d{1,2}\<close>,
  \<^verbatim>\<open>[a-zA-Z0-9]{18}\<close>), alternatives of literals (\<^verbatim>\<open>(?:AM|PM)\<close>) and capture groups
  around such sequences. Matching is the backtracking search of the language: every
  function returns the list of its successes in the order the search tries them, so the
  head of the list is the match the engine reports.
\<close>

datatype atom =
    Lit string
  | Cls "char \<Rightarrow> bool" nat "nat option"
  | Alts "string list"

datatype node = Atom atom | Group "atom list"

type_synonym regex = "node list"

fun match_lit :: "string \<Rightarrow> string \<Rightarrow> string list" where
  "match_lit l s = (if take (length l) s = l then [drop (length l) s] else [])"

fun match_atom :: "atom \<Rightarrow> string \<Rightarrow> string list" where
  "match_atom (Lit l) s = match_lit l s"
| "match_atom (Cls p lo hi) s =
     (let n = length (takeWhile p s);
          m = (case hi of None \<Rightarrow> n | Some h \<Rightarrow> min h n)
      in map (\<lambda>k. drop k s) (rev [lo..<Suc m]))"
| "match_atom (Alts ls) s = concat (map (\<lambda>l. match_lit l s) ls)"

fun match_atoms :: "atom list \<Rightarrow> string \<Rightarrow> string list" where
  "match_atoms [] s = [s]"
| "match_atoms (a # as) s = concat (map (match_atoms as) (match_atom a s))"

fun match_nodes :: "regex \<Rightarrow> string \<Rightarrow> (string \<times> string list) list" where
  "match_nodes [] s = [(s, [])]"
| "match_nodes (Atom a # ns) s = concat (map (match_nodes ns) (match_atom a s))"
| "match_nodes (Group as # ns) s =
     concat (map (\<lambda>r. map (\<lambda>(r', cs). (r', take (length s - length r) s # cs))
                           (match_nodes ns r))
                 (match_atoms as s))"

text \<open>
  \<^verbatim>\<open>RegExp.prototype.exec\<close> without flags tries every start index from the left and
  reports the first success; the result here is the list of captures.
\<close>

fun exec :: "regex \<Rightarrow> string \<Rightarrow> string list option" where
  "exec r [] = (case match_nodes r [] of [] \<Rightarrow> None | x # _ \<Rightarrow> Some (snd x))"
| "exec r (c # s) =
     (case match_nodes r (c # s) of [] \<Rightarrow> exec r s | x # _ \<Rightarrow> Some (snd x))"

definition test :: "regex \<Rightarrow> string \<Rightarrow> bool" where
  "test r s = (exec r s \<noteq> None)"

section \<open>constants.ts\<close>

definition CBE_VERIFICATION_BASE_URL :: string where
  "CBE_VERIFICATION_BASE_URL = ''https://apps.cbe.com.et:100''"

definition TRANSACTION_REFERENCE_REGEX :: regex where
  "TRANSACTION_REFERENCE_REGEX = [Atom (Lit ''FT''), Atom (Cls is_alnum 10 (Some 10))]"

definition TRANSACTION_URL_REGEX :: regex where
  "TRANSACTION_URL_REGEX =
     [Atom (Lit ''https://apps''), Atom (Cls is_dot 1 (Some 1)),
      Atom (Lit ''cbe''), Atom (Cls is_dot 1 (Some 1)),
      Atom (Lit ''com''), Atom (Cls is_dot 1 (Some 1)),
      Atom (Lit ''et:100/?id=FT''), Atom (Cls is_alnum 18 (Some 18))]"

definition DEFAULT_MAX_TRANSACTION_AGE_HOURS :: rat where
  "DEFAULT_MAX_TRANSACTION_AGE_HOURS = 24"

definition REFERENCE_NUMBER :: regex where
  "REFERENCE_NUMBER =
     [Atom (Lit ''Reference No. (VAT Invoice No)''), Atom (Cls is_space 0 None),
      Group [Cls is_dot 1 None]]"

definition PAYMENT_DATE_TIME :: regex where
  "PAYMENT_DATE_TIME =
     [Atom (Lit ''Payment Date & Time''), Atom (Cls is_space 0 None),
      Group [Cls is_digit 1 (Some 2), Lit ''/'', Cls is_digit 1 (Some 2), Lit ''/'',
             Cls is_digit 4 (Some 4), Lit '', '', Cls is_digit 1 (Some 2), Lit '':'',
             Cls is_digit 2 (Some 2), Lit '':'', Cls is_digit 2 (Some 2), Lit '' '',
             Alts [''AM'', ''PM'']]]"

definition TOTAL_AMOUNT :: regex where
  "TOTAL_AMOUNT =
     [Atom (Lit ''Total amount debited from customers account''),
      Atom (Cls is_space 0 None),
      Group [Cls is_amount_char 1 None, Cls is_space 0 None, Lit ''ETB'']]"

definition RECEIVER :: regex where
  "RECEIVER = [Atom (Lit ''Receiver''), Atom (Cls is_space 0 None), Group [Cls is_dot 1 None]]"

definition PAYER :: regex where
  "PAYER = [Atom (Lit ''Payer''), Atom (Cls is_space 0 None), Group [Cls is_dot 1 None]]"

section \<open>types.ts\<close>

text \<open>
  A \<^verbatim>\<open>Date\<close> object holds a time value: a number of milliseconds since the epoch, or
  \<^verbatim>\<open>NaN\<close> (\<open>None\<close> here), which is the object called Invalid Date. Nullable fields are
  options. A caller typed loosely can pass any value where a string is expected, so the
  input of the verifier is a value that is a string or something else.
\<close>

datatype Date = Date (time_value: "int option")

record TransactionDetails =
  transactionRefNumber :: "string option"
  paymentDateTime :: "Date option"
  totalAmountDebited :: "string option"
  receiver :: "string option"
  payer :: "string option"

record PaymentVerificationConfig =
  cbeAccountNumber :: string
  maxTransactionAgeHours :: "rat option"
  rejectUnauthorized :: "bool option"

datatype js_value = Str string | NotAString

text \<open>
  One constructor for each error the pipeline raises, in the order of their messages in
  the source: \<^verbatim>\<open>Input must be a non-empty string\<close>,
  \<^verbatim>\<open>Invalid transaction reference number or URL format\<close>,
  \<^verbatim>\<open>CBE account number is required for verification\<close>,
  \<^verbatim>\<open>Unable to construct PDF URL from input\<close>, whatever the retrieval of the
  document raises, \<^verbatim>\<open>Transaction reference number not found in the PDF\<close>,
  \<^verbatim>\<open>Payment date and time not found in the PDF\<close> and
  \<^verbatim>\<open>Transaction is older than ... hours\<close>.
\<close>

datatype error =
    EmptyInput
  | InvalidInputFormat
  | MissingAccountNumber
  | UnableToConstructUrl
  | DocumentRetrievalFailed string
  | MissingReferenceNumber
  | MissingPaymentTimestamp
  | TransactionTooOld

section \<open>transaction-parser.ts\<close>

text \<open>
  \<^verbatim>\<open>dayjs().diff(dayjs(d), 'hour')\<close> divides the difference of the two time values by
  the milliseconds of an hour and drops the fraction towards zero; with an Invalid Date
  the difference is \<^verbatim>\<open>NaN\<close>. The current time \<open>now\<close> is a parameter. The
  arithmetic is exact.
\<close>

definition MILLISECONDS_A_HOUR :: int where
  "MILLISECONDS_A_HOUR = 3600000"

definition absFloor :: "int \<Rightarrow> int \<Rightarrow> int" where
  "absFloor n k = (if n < 0 then - ((- n) div k) else n div k)"

definition dayjs_diff_hours :: "int \<Rightarrow> Date \<Rightarrow> int option" where
  "dayjs_diff_hours now d =
     (case time_value d of
        None \<Rightarrow> None
      | Some t \<Rightarrow> Some (absFloor (now - t) MILLISECONDS_A_HOUR))"

text \<open>A comparison with \<^verbatim>\<open>NaN\<close> is false, so an Invalid Date passes.\<close>

definition validateTransactionAge :: "int \<Rightarrow> Date \<Rightarrow> rat \<Rightarrow> error + unit" where
  "validateTransactionAge now paymentDateTime' maxAgeHours =
     (case dayjs_diff_hours now paymentDateTime' of
        None \<Rightarrow> Inr ()
      | Some hoursDiff \<Rightarrow>
          if of_int hoursDiff > maxAgeHours then Inl TransactionTooOld else Inr ())"

text \<open>
  \<^verbatim>\<open>match?.[1]?.trim() || null\<close>: no match gives null, and so does a capture that
  trims to the empty string, which is falsy.
\<close>

definition trimmed_capture :: "string list option \<Rightarrow> string option" where
  "trimmed_capture m =
     (case m of
        Some (c # _) \<Rightarrow> (if trim c = [] then None else Some (trim c))
      | _ \<Rightarrow> None)"

definition extractReferenceNumber :: "string \<Rightarrow> string option" where
  "extractReferenceNumber text = trimmed_capture (exec REFERENCE_NUMBER text)"

text \<open>
  \<^verbatim>\<open>new Date(string)\<close> hands the string to the date parser of the runtime, the
  parameter \<open>parse\<close>, and never throws: an unparseable string gives the time value
  \<^verbatim>\<open>NaN\<close>. The \<^verbatim>\<open>catch\<close> branch of the source is therefore never taken.
\<close>

definition extractPaymentDateTime :: "(string \<Rightarrow> int option) \<Rightarrow> string \<Rightarrow> Date option" where
  "extractPaymentDateTime parse text =
     (case exec PAYMENT_DATE_TIME text of
        Some (c # _) \<Rightarrow> (if c = [] then None else Some (Date (parse (trim c))))
      | _ \<Rightarrow> None)"

definition extractTotalAmount :: "string \<Rightarrow> string option" where
  "extractTotalAmount text = trimmed_capture (exec TOTAL_AMOUNT text)"

definition extractReceiver :: "string \<Rightarrow> string option" where
  "extractReceiver text = trimmed_capture (exec RECEIVER text)"

definition extractPayer :: "string \<Rightarrow> string option" where
  "extractPayer text = trimmed_capture (exec PAYER text)"

text \<open>The object literal that \<^verbatim>\<open>extractTransactionDetails\<close> builds first.\<close>

definition details_of :: "(string \<Rightarrow> int option) \<Rightarrow> string \<Rightarrow> TransactionDetails" where
  "details_of parse text =
     \<lparr> transactionRefNumber = extractReferenceNumber text,
       paymentDateTime = extractPaymentDateTime parse text,
       totalAmountDebited = extractTotalAmount text,
       receiver = extractReceiver text,
       payer = extractPayer text \<rparr>"

definition extractTransactionDetails ::
  "(string \<Rightarrow> int option) \<Rightarrow> int \<Rightarrow> string \<Rightarrow> PaymentVerificationConfig
     \<Rightarrow> error + TransactionDetails" where
  "extractTransactionDetails parse now text config =
     (let details = details_of parse text in
      case transactionRefNumber details of
        None \<Rightarrow> Inl MissingReferenceNumber
      | Some _ \<Rightarrow>
         (case paymentDateTime details of
            None \<Rightarrow> Inl MissingPaymentTimestamp
          | Some d \<Rightarrow>
             (let maxAge = (case maxTransactionAgeHours config of
                              None \<Rightarrow> DEFAULT_MAX_TRANSACTION_AGE_HOURS
                            | Some h \<Rightarrow> h)
              in case validateTransactionAge now d maxAge of
                   Inl e \<Rightarrow> Inl e
                 | Inr _ \<Rightarrow> Inr details)))"

section \<open>payment-verifier.ts\<close>

definition validateInput :: "js_value \<Rightarrow> error + unit" where
  "validateInput v =
     (case v of
        NotAString \<Rightarrow> Inl EmptyInput
      | Str input \<Rightarrow>
          if input = [] then Inl EmptyInput
          else
            (let isValidRef = test TRANSACTION_REFERENCE_REGEX input;
                 isValidUrl = test TRANSACTION_URL_REGEX input
             in if \<not> isValidRef \<and> \<not> isValidUrl then Inl InvalidInputFormat else Inr ()))"

definition constructPdfUrl :: "string \<Rightarrow> string \<Rightarrow> error + string" where
  "constructPdfUrl input cbeAccountNumber' =
     (if test TRANSACTION_URL_REGEX input then
        Inr (slice_but_last 8 input @ slice_last 8 cbeAccountNumber')
      else if test TRANSACTION_REFERENCE_REGEX input then
        Inr (CBE_VERIFICATION_BASE_URL @ ''/?id='' @ input @ slice_last 8 cbeAccountNumber')
      else Inl UnableToConstructUrl)"

text \<open>
  The retrieval of the document is the collaborator \<open>fetch\<close>, a parameter. The list
  \<open>calls\<close> records each call of it, with the URL it was given, so that a result says which
  network accesses happened before it. An error raised inside the \<^verbatim>\<open>try\<close> block is
  rethrown as it is.
\<close>

type_synonym fetcher = "string \<Rightarrow> PaymentVerificationConfig \<Rightarrow> error + string"

definition verifyDirectDeposit ::
  "fetcher \<Rightarrow> (string \<Rightarrow> int option) \<Rightarrow> int \<Rightarrow> js_value \<Rightarrow> PaymentVerificationConfig
     \<Rightarrow> string list \<Rightarrow> (error + TransactionDetails) \<times> string list" where
  "verifyDirectDeposit fetch parse now transactionRefNumberOrUrl config calls =
     (case validateInput transactionRefNumberOrUrl of
        Inl e \<Rightarrow> (Inl e, calls)
      | Inr _ \<Rightarrow>
          if cbeAccountNumber config = [] then (Inl MissingAccountNumber, calls)
          else
            (case transactionRefNumberOrUrl of
               NotAString \<Rightarrow> (Inl EmptyInput, calls)
             | Str input \<Rightarrow>
                (case constructPdfUrl input (cbeAccountNumber config) of
                   Inl e \<Rightarrow> (Inl e, calls)
                 | Inr pdfUrl \<Rightarrow>
                    (case fetch pdfUrl config of
                       Inl e \<Rightarrow> (Inl e, calls @ [pdfUrl])
                     | Inr pdfText \<Rightarrow>
                         (extractTransactionDetails parse now pdfText config,
                          calls @ [pdfUrl])))))"

section \<open>A date parser for the receipt format\<close>

text \<open>
  The theorems below hold for every date parser. To evaluate the definitions on a
  concrete receipt, \<open>parse_receipt_date\<close> reads \<^verbatim>\<open>MM/DD/YYYY, H:MM:SS AM|PM\<close> as a
  time in UTC: month 1 to 12, day 1 to 31, hour 0 to 12, minute and second 0 to 59;
  anything else is unparseable. It stands in for the parser of the runtime, which
  reads local time and accepts further forms, and is used only at concrete inputs.
\<close>

definition digits_value :: "string \<Rightarrow> nat" where
  "digits_value ds = foldl (\<lambda>n c. 10 * n + (of_char c - 48)) 0 ds"

definition read_number :: "string \<Rightarrow> (nat \<times> string) option" where
  "read_number s =
     (let ds = takeWhile is_digit s
      in if ds = [] then None else Some (digits_value ds, drop (length ds) s))"

definition read_lit :: "string \<Rightarrow> string \<Rightarrow> string option" where
  "read_lit l s = (if take (length l) s = l then Some (drop (length l) s) else None)"

definition days_from_civil :: "int \<Rightarrow> int \<Rightarrow> int \<Rightarrow> int" where
  "days_from_civil y m d =
     (let y' = (if m \<le> 2 then y - 1 else y);
          era = y' div 400;
          yoe = y' - era * 400;
          doy = (153 * (if m > 2 then m - 3 else m + 9) + 2) div 5 + d - 1;
          doe = yoe * 365 + yoe div 4 - yoe div 100 + doy
      in era * 146097 + doe - 719468)"

definition parse_receipt_date :: "string \<Rightarrow> int option" where
  "parse_receipt_date s =
     do {
       (mo, s1) \<leftarrow> read_number s;
       s2 \<leftarrow> read_lit ''/'' s1;
       (dy, s3) \<leftarrow> read_number s2;
       s4 \<leftarrow> read_lit ''/'' s3;
       (yr, s5) \<leftarrow> read_number s4;
       s6 \<leftarrow> read_lit '', '' s5;
       (hr, s7) \<leftarrow> read_number s6;
       s8 \<leftarrow> read_lit '':'' s7;
       (mi, s9) \<leftarrow> read_number s8;
       s10 \<leftarrow> read_lit '':'' s9;
       (sc, s11) \<leftarrow> read_number s10;
       s12 \<leftarrow> read_lit '' '' s11;
       off \<leftarrow> (if s12 = ''AM'' then Some 0 else if s12 = ''PM'' then Some 12 else None);
       (if 1 \<le> mo \<and> mo \<le> 12 \<and> 1 \<le> dy \<and> dy \<le> 31 \<and> hr \<le> 12 \<and> mi \<le> 59 \<and> sc \<le> 59
        then Some ((((days_from_civil (int yr) (int mo) (int dy) * 24
                        + int (hr mod 12 + off)) * 60 + int mi) * 60 + int sc) * 1000)
        else None)
     }"

section \<open>The language of a regular expression\<close>

text \<open>
  What a regular expression matches, without the order of the search: the strings of an
  atom, of a sequence of atoms, and the pairs of a matched string and its captures of a
  regular expression.
\<close>

fun atom_lang :: "atom \<Rightarrow> string set" where
  "atom_lang (Lit l) = {l}"
| "atom_lang (Cls p lo hi) =
     {u. list_all p u \<and> lo \<le> length u \<and> (case hi of None \<Rightarrow> True | Some h \<Rightarrow> length u \<le> h)}"
| "atom_lang (Alts ls) = set ls"

fun atoms_lang :: "atom list \<Rightarrow> string set" where
  "atoms_lang [] = {[]}"
| "atoms_lang (a # as) = {u @ v | u v. u \<in> atom_lang a \<and> v \<in> atoms_lang as}"

fun nodes_sem :: "regex \<Rightarrow> (string \<times> string list) set" where
  "nodes_sem [] = {([], [])}"
| "nodes_sem (Atom a # ns) = {(u @ v, cs) | u v cs. u \<in> atom_lang a \<and> (v, cs) \<in> nodes_sem ns}"
| "nodes_sem (Group as # ns) =
     {(u @ v, u # cs) | u v cs. u \<in> atoms_lang as \<and> (v, cs) \<in> nodes_sem ns}"

section \<open>The two shapes of an input\<close>

text \<open>
  The strings the two classification patterns match, written out: \<open>url_shape\<close> is what
  \<^verbatim>\<open>TRANSACTION_URL_REGEX\<close> matches, where each unescaped dot of the host stands for
  any character that is no line terminator, and \<open>reference_shape\<close> is what
  \<^verbatim>\<open>TRANSACTION_REFERENCE_REGEX\<close> matches. Neither pattern is anchored, so an input
  is classified by the substrings it \<open>contains\<close>.
\<close>

definition url_shape :: "string \<Rightarrow> bool" where
  "url_shape u =
     (\<exists>a b c ref. u = ''https://apps'' @ [a] @ ''cbe'' @ [b] @ ''com'' @ [c]
                        @ ''et:100/?id=FT'' @ ref
        \<and> is_dot a \<and> is_dot b \<and> is_dot c \<and> length ref = 18 \<and> list_all is_alnum ref)"

definition reference_shape :: "string \<Rightarrow> bool" where
  "reference_shape u = (\<exists>ref. u = ''FT'' @ ref \<and> length ref = 10 \<and> list_all is_alnum ref)"

definition contains :: "(string \<Rightarrow> bool) \<Rightarrow> string \<Rightarrow> bool" where
  "contains shape s = (\<exists>pre u post. s = pre @ u @ post \<and> shape u)"

text \<open>
  The URL shape in the words of the specification: the whole string is the base URL,
  the query key, the two-letter prefix and exactly 18 alphanumeric characters.
\<close>

definition conforms_to_url_shape :: "string \<Rightarrow> bool" where
  "conforms_to_url_shape s =
     (s = CBE_VERIFICATION_BASE_URL @ ''/?id='' @ ''FT'' @ drop 34 s
      \<and> length (drop 34 s) = 18 \<and> list_all is_alnum (drop 34 s))"

text \<open>A URL whose host has the characters \<open>a\<close>, \<open>b\<close> and \<open>c\<close> in place of the dots.\<close>

definition url_with_separators :: "char \<Rightarrow> char \<Rightarrow> char \<Rightarrow> string \<Rightarrow> string" where
  "url_with_separators a b c ref =
     ''https://apps'' @ [a] @ ''cbe'' @ [b] @ ''com'' @ [c] @ ''et:100/?id=FT'' @ ref"

section \<open>Fields of the extracted record\<close>

text \<open>
  A string field is clean when it is absent, or present, not empty and with no white
  space at its first or last position.
\<close>

definition clean_field :: "string option \<Rightarrow> bool" where
  "clean_field f =
     (case f of None \<Rightarrow> True
      | Some v \<Rightarrow> v \<noteq> [] \<and> \<not> is_space (hd v) \<and> \<not> is_space (last v))"

section \<open>Captures of the extraction patterns\<close>

text \<open>
  The five extraction patterns have one form: the label, \<^verbatim>\<open>\s*\<close>, and a capture
  group. The group of the timestamp pattern is \<open>date_atoms\<close>.
\<close>

definition labelled :: "string \<Rightarrow> atom list \<Rightarrow> regex" where
  "labelled label as = [Atom (Lit label), Atom (Cls is_space 0 None), Group as]"

definition date_atoms :: "atom list" where
  "date_atoms =
     [Cls is_digit 1 (Some 2), Lit ''/'', Cls is_digit 1 (Some 2), Lit ''/'',
      Cls is_digit 4 (Some 4), Lit '', '', Cls is_digit 1 (Some 2), Lit '':'',
      Cls is_digit 2 (Some 2), Lit '':'', Cls is_digit 2 (Some 2), Lit '' '',
      Alts [''AM'', ''PM'']]"

text \<open>
  A label occurs in a text when the text has it as a substring. A line capture of a
  label is a stretch of the text that comes after the label and white space, has no
  line terminator in it, is not empty and ends where the text ends or a line terminator
  follows; a one-line capture is the same without the condition on its end.
\<close>

definition occurs_in :: "string \<Rightarrow> string \<Rightarrow> bool" where
  "occurs_in label text = (\<exists>pre post. text = pre @ label @ post)"

definition line_capture :: "string \<Rightarrow> string \<Rightarrow> string \<Rightarrow> bool" where
  "line_capture label text c =
     (\<exists>pre ws rest. text = pre @ label @ ws @ c @ rest
        \<and> list_all is_space ws
        \<and> c \<noteq> [] \<and> list_all (\<lambda>x. \<not> is_line_terminator x) c
        \<and> (rest = [] \<or> is_line_terminator (hd rest)))"

definition one_line_capture :: "string \<Rightarrow> string \<Rightarrow> string \<Rightarrow> bool" where
  "one_line_capture label text c =
     (\<exists>pre ws rest. text = pre @ label @ ws @ c @ rest
        \<and> list_all is_space ws
        \<and> c \<noteq> [] \<and> list_all (\<lambda>x. \<not> is_line_terminator x) c)"

text \<open>The strings of the form \<^verbatim>\<open>MM/DD/YYYY, H:MM:SS AM|PM\<close>.\<close>

definition receipt_date_format :: "string \<Rightarrow> bool" where
  "receipt_date_format c =
     (\<exists>mo dy yr hr mi sc ap.
        c = mo @ ''/'' @ dy @ ''/'' @ yr @ '', '' @ hr @ '':'' @ mi @ '':'' @ sc @ '' '' @ ap
        \<and> list_all is_digit mo \<and> 1 \<le> length mo \<and> length mo \<le> 2
        \<and> list_all is_digit dy \<and> 1 \<le> length dy \<and> length dy \<le> 2
        \<and> list_all is_digit yr \<and> length yr = 4
        \<and> list_all is_digit hr \<and> 1 \<le> length hr \<and> length hr \<le> 2
        \<and> list_all is_digit mi \<and> length mi = 2
        \<and> list_all is_digit sc \<and> length sc = 2
        \<and> (ap = ''AM'' \<or> ap = ''PM''))"

text \<open>
  The remainder of the line on which a label first occurs: what follows the first
  occurrence of the label, up to the next line terminator.
\<close>

fun after_first :: "string \<Rightarrow> string \<Rightarrow> string option" where
  "after_first l [] = (if l = [] then Some [] else None)"
| "after_first l (c # s) =
     (if take (length l) (c # s) = l then Some (drop (length l) (c # s))
      else after_first l s)"

definition label_line_remainder :: "string \<Rightarrow> string \<Rightarrow> string option" where
  "label_line_remainder label text =
     map_option (takeWhile (\<lambda>c. \<not> is_line_terminator c)) (after_first label text)"

section \<open>Lemmas on the hour difference\<close>

lemma absFloor_nonneg:
  "0 \<le> d \<Longrightarrow> absFloor d MILLISECONDS_A_HOUR = d div 3600000"
  by (simp add: absFloor_def MILLISECONDS_A_HOUR_def)

lemma div_hour_upper: "(d::int) < (d div 3600000 + 1) * 3600000"
proof -
  have "d mod 3600000 < 3600000" by simp
  moreover have "d = d div 3600000 * 3600000 + d mod 3600000" by simp
  ultimately show ?thesis by (simp add: algebra_simps)
qed

lemma absFloor_truncates:
  fixes d :: int
  defines "h \<equiv> absFloor d MILLISECONDS_A_HOUR"
  shows "\<bar>h\<bar> * 3600000 \<le> \<bar>d\<bar> \<and> \<bar>d\<bar> < (\<bar>h\<bar> + 1) * 3600000 \<and> 0 \<le> h * d"
proof (cases "d < 0")
  case True
  then have h: "h = - ((- d) div 3600000)"
    by (simp add: h_def absFloor_def MILLISECONDS_A_HOUR_def)
  have q: "0 \<le> (- d) div 3600000" using True by (simp add: pos_imp_zdiv_nonneg_iff)
  have "((- d) div 3600000) * 3600000 \<le> - d" by simp
  moreover have "- d < ((- d) div 3600000 + 1) * 3600000"
    by (rule div_hour_upper)
  moreover have "0 \<le> h * d"
  proof -
    have "0 \<le> ((- d) div 3600000) * (- d)" using q True by (intro mult_nonneg_nonneg) simp_all
    then show ?thesis unfolding h by simp
  qed
  ultimately show ?thesis using h q True by simp
next
  case False
  then have h: "h = d div 3600000"
    by (simp add: h_def absFloor_def MILLISECONDS_A_HOUR_def)
  have q: "0 \<le> d div 3600000" using False by (simp add: pos_imp_zdiv_nonneg_iff)
  have "(d div 3600000) * 3600000 \<le> d" by simp
  moreover have "d < (d div 3600000 + 1) * 3600000"
    by (rule div_hour_upper)
  moreover have "0 \<le> h * d" using h q False by simp
  ultimately show ?thesis using h q False by simp
qed

lemma validateTransactionAge_valid:
  "validateTransactionAge now (Date (Some t)) m =
     (if of_int (absFloor (now - t) MILLISECONDS_A_HOUR) > m then Inl TransactionTooOld else Inr ())"
  by (simp add: validateTransactionAge_def dayjs_diff_hours_def)

lemma at_threshold:
  fixes m :: rat
  assumes "0 < m" "of_int d = m * 3600000"
  shows "\<not> of_int (absFloor d MILLISECONDS_A_HOUR) > m"
    and "of_int (absFloor (d + 3600000) MILLISECONDS_A_HOUR) > m"
proof -
  have dpos: "0 < d"
  proof -
    have "(0::rat) < of_int d" using assms by simp
    then show ?thesis by simp
  qed
  have h: "absFloor d MILLISECONDS_A_HOUR = d div 3600000"
    using dpos by (simp add: absFloor_nonneg)
  have h': "absFloor (d + 3600000) MILLISECONDS_A_HOUR = d div 3600000 + 1"
    using dpos by (simp add: absFloor_nonneg)
  have lo: "(d div 3600000) * 3600000 \<le> d" by simp
  have hi: "d < (d div 3600000 + 1) * 3600000"
    by (rule div_hour_upper)
  have "(of_int ((d div 3600000) * 3600000) :: rat) \<le> of_int d"
    using lo by (simp only: of_int_le_iff)
  then have "(of_int (d div 3600000) :: rat) * 3600000 \<le> m * 3600000"
    using assms(2) by simp
  then have "(of_int (d div 3600000) :: rat) \<le> m" by simp
  then show "\<not> of_int (absFloor d MILLISECONDS_A_HOUR) > m" using h by simp
  have "(of_int d :: rat) < of_int ((d div 3600000 + 1) * 3600000)"
    using hi by (simp only: of_int_less_iff)
  then have "m * 3600000 < (of_int (d div 3600000 + 1) :: rat) * 3600000"
    using assms(2) by simp
  then have "m < (of_int (d div 3600000 + 1) :: rat)" by simp
  then show "of_int (absFloor (d + 3600000) MILLISECONDS_A_HOUR) > m" using h' by simp
qed

section \<open>The matcher finds exactly the language\<close>

lemma match_lit_iff: "r \<in> set (match_lit l s) \<longleftrightarrow> s = l @ r"
proof
  assume "r \<in> set (match_lit l s)"
  then have "take (length l) s = l" "r = drop (length l) s"
    by (auto split: if_splits)
  then show "s = l @ r" by (metis append_take_drop_id)
next
  assume "s = l @ r"
  then show "r \<in> set (match_lit l s)" by simp
qed

lemma match_cls_set:
  "set (match_atom (Cls p lo hi) s) =
     (\<lambda>k. drop k s) ` {k. lo \<le> k \<and> k \<le> length (takeWhile p s)
                           \<and> (case hi of None \<Rightarrow> True | Some h \<Rightarrow> k \<le> h)}"
proof -
  have "{lo..<Suc (case hi of None \<Rightarrow> length (takeWhile p s)
                     | Some h \<Rightarrow> min h (length (takeWhile p s)))}
        = {k. lo \<le> k \<and> k \<le> length (takeWhile p s)
                \<and> (case hi of None \<Rightarrow> True | Some h \<Rightarrow> k \<le> h)}"
    by (auto split: option.splits)
  moreover have "set (match_atom (Cls p lo hi) s) =
      (\<lambda>k. drop k s) ` {lo..<Suc (case hi of None \<Rightarrow> length (takeWhile p s)
                     | Some h \<Rightarrow> min h (length (takeWhile p s)))}"
    by (simp only: match_atom.simps Let_def set_map set_rev set_upt)
  ultimately show ?thesis by simp
qed

lemma takeWhile_all_prefix:
  "list_all p u \<Longrightarrow> length u \<le> length (takeWhile p (u @ r))"
  by (induction u) auto

lemma take_takeWhile_all:
  "k \<le> length (takeWhile p s) \<Longrightarrow> list_all p (take k s)"
proof (induction s arbitrary: k)
  case Nil
  then show ?case by simp
next
  case (Cons a s)
  then show ?case by (cases k) (auto split: if_splits)
qed

lemma match_cls_iff:
  "r \<in> set (match_atom (Cls p lo hi) s) \<longleftrightarrow> (\<exists>u \<in> atom_lang (Cls p lo hi). s = u @ r)"
proof
  assume "r \<in> set (match_atom (Cls p lo hi) s)"
  then obtain k where k: "lo \<le> k" "k \<le> length (takeWhile p s)"
      "case hi of None \<Rightarrow> True | Some h \<Rightarrow> k \<le> h" "r = drop k s"
    unfolding match_cls_set by blast
  have len: "k \<le> length s" using k(2) length_takeWhile_le [of p s] by linarith
  have "list_all p (take k s)" using k(2) by (rule take_takeWhile_all)
  moreover have "length (take k s) = k" using len by simp
  ultimately have "take k s \<in> atom_lang (Cls p lo hi)"
    using k(1,3) by (auto split: option.splits)
  moreover have "s = take k s @ r" using k(4) by simp
  ultimately show "\<exists>u \<in> atom_lang (Cls p lo hi). s = u @ r" by blast
next
  assume "\<exists>u \<in> atom_lang (Cls p lo hi). s = u @ r"
  then obtain u where u: "list_all p u" "lo \<le> length u"
      "case hi of None \<Rightarrow> True | Some h \<Rightarrow> length u \<le> h" "s = u @ r"
    by auto
  have "length u \<le> length (takeWhile p s)"
    using u(1,4) takeWhile_all_prefix by blast
  moreover have "r = drop (length u) s" using u(4) by simp
  ultimately show "r \<in> set (match_atom (Cls p lo hi) s)"
    unfolding match_cls_set using u(2,3) by blast
qed

lemma match_atom_iff:
  "r \<in> set (match_atom a s) \<longleftrightarrow> (\<exists>u \<in> atom_lang a. s = u @ r)"
proof (cases a)
  case (Lit l)
  then show ?thesis using match_lit_iff [of r l s] by simp
next
  case (Cls p lo hi)
  then show ?thesis using match_cls_iff by blast
next
  case (Alts ls)
  have "r \<in> set (match_atom (Alts ls) s) \<longleftrightarrow> (\<exists>l \<in> set ls. r \<in> set (match_lit l s))"
    by (simp del: match_lit.simps)
  then show ?thesis using Alts match_lit_iff by simp
qed

lemma join_concat:
  "(\<exists>u v. Q u v \<and> s = u @ v @ r) \<longleftrightarrow> (\<exists>w. (\<exists>u v. w = u @ v \<and> Q u v) \<and> s = w @ r)"
proof
  assume "\<exists>u v. Q u v \<and> s = u @ v @ r"
  then obtain u v where "Q u v" "s = (u @ v) @ r" by auto
  then show "\<exists>w. (\<exists>u v. w = u @ v \<and> Q u v) \<and> s = w @ r" by blast
next
  assume "\<exists>w. (\<exists>u v. w = u @ v \<and> Q u v) \<and> s = w @ r"
  then obtain u v where "Q u v" "s = (u @ v) @ r" by blast
  then have "Q u v \<and> s = u @ v @ r" by simp
  then show "\<exists>u v. Q u v \<and> s = u @ v @ r" by blast
qed

lemma split_concat:
  "(\<exists>r1. (\<exists>u \<in> A. s = u @ r1) \<and> (\<exists>v. r1 = v @ r \<and> P v))
     \<longleftrightarrow> (\<exists>u v. u \<in> A \<and> P v \<and> s = u @ v @ r)"
  by blast

lemma match_atoms_iff:
  "r \<in> set (match_atoms as s) \<longleftrightarrow> (\<exists>u \<in> atoms_lang as. s = u @ r)"
proof (induction as arbitrary: s)
  case Nil
  then show ?case by auto
next
  case (Cons a as)
  have "r \<in> set (match_atoms (a # as) s)
          \<longleftrightarrow> (\<exists>r1 \<in> set (match_atom a s). r \<in> set (match_atoms as r1))"
    by auto
  also have "\<dots> \<longleftrightarrow> (\<exists>r1. (\<exists>u \<in> atom_lang a. s = u @ r1)
                            \<and> (\<exists>v. r1 = v @ r \<and> v \<in> atoms_lang as))"
    using Cons.IH match_atom_iff by blast
  also have "\<dots> \<longleftrightarrow> (\<exists>u v. u \<in> atom_lang a \<and> v \<in> atoms_lang as \<and> s = u @ v @ r)"
    by (rule split_concat)
  also have "\<dots> \<longleftrightarrow> (\<exists>w. (\<exists>u v. w = u @ v \<and> (u \<in> atom_lang a \<and> v \<in> atoms_lang as))
                            \<and> s = w @ r)"
    using join_concat [of "\<lambda>u v. u \<in> atom_lang a \<and> v \<in> atoms_lang as" s r] by simp
  also have "\<dots> \<longleftrightarrow> (\<exists>w \<in> atoms_lang (a # as). s = w @ r)"
    by (simp add: Bex_def)
  finally show ?case .
qed

lemma match_nodes_iff:
  "(r, cs) \<in> set (match_nodes ns s) \<longleftrightarrow> (\<exists>u. s = u @ r \<and> (u, cs) \<in> nodes_sem ns)"
proof (induction ns arbitrary: s cs)
  case Nil
  then show ?case by auto
next
  case (Cons n ns)
  show ?case
  proof (cases n)
    case (Atom a)
    have "(r, cs) \<in> set (match_nodes (n # ns) s)
            \<longleftrightarrow> (\<exists>r1 \<in> set (match_atom a s). (r, cs) \<in> set (match_nodes ns r1))"
      using Atom by auto
    also have "\<dots> \<longleftrightarrow> (\<exists>r1. (\<exists>u \<in> atom_lang a. s = u @ r1)
                              \<and> (\<exists>v. r1 = v @ r \<and> (v, cs) \<in> nodes_sem ns))"
      using Cons.IH match_atom_iff by blast
    also have "\<dots> \<longleftrightarrow> (\<exists>u v. u \<in> atom_lang a \<and> (v, cs) \<in> nodes_sem ns \<and> s = u @ v @ r)"
      by (rule split_concat)
    also have "\<dots> \<longleftrightarrow> (\<exists>w. (\<exists>u v. w = u @ v \<and> (u \<in> atom_lang a \<and> (v, cs) \<in> nodes_sem ns))
                              \<and> s = w @ r)"
      using join_concat [of "\<lambda>u v. u \<in> atom_lang a \<and> (v, cs) \<in> nodes_sem ns" s r] by simp
    also have "\<dots> \<longleftrightarrow> (\<exists>w. s = w @ r \<and> (w, cs) \<in> nodes_sem (n # ns))"
      using Atom by (simp add: conj_commute)
    finally show ?thesis .
  next
    case (Group as)
    have unfold: "(r, cs) \<in> set (match_nodes (n # ns) s)
            \<longleftrightarrow> (\<exists>r1 \<in> set (match_atoms as s). \<exists>cs'. cs = take (length s - length r1) s # cs'
                      \<and> (r, cs') \<in> set (match_nodes ns r1))"
      using Group by auto
    show ?thesis
    proof
      assume "(r, cs) \<in> set (match_nodes (n # ns) s)"
      then obtain r1 cs' where r1: "r1 \<in> set (match_atoms as s)"
          and cs: "cs = take (length s - length r1) s # cs'"
          and rest: "(r, cs') \<in> set (match_nodes ns r1)"
        using unfold by blast
      obtain u where u: "u \<in> atoms_lang as" "s = u @ r1"
        using r1 match_atoms_iff by blast
      obtain v where v: "r1 = v @ r" "(v, cs') \<in> nodes_sem ns"
        using rest Cons.IH by blast
      have "take (length s - length r1) s = u" using u(2) by simp
      then have "(u @ v, cs) \<in> nodes_sem (n # ns)"
        using Group cs u(1) v(2) by auto
      moreover have "s = (u @ v) @ r" using u(2) v(1) by simp
      ultimately show "\<exists>w. s = w @ r \<and> (w, cs) \<in> nodes_sem (n # ns)" by blast
    next
      assume "\<exists>w. s = w @ r \<and> (w, cs) \<in> nodes_sem (n # ns)"
      then obtain w where w: "s = w @ r" "(w, cs) \<in> nodes_sem (Group as # ns)"
        using Group by blast
      then obtain u v cs' where uv: "w = u @ v" "cs = u # cs'" "u \<in> atoms_lang as"
          "(v, cs') \<in> nodes_sem ns"
        by auto
      have s: "s = u @ (v @ r)" using w(1) uv(1) by simp
      then have "v @ r \<in> set (match_atoms as s)" using uv(3) match_atoms_iff by blast
      moreover have "take (length s - length (v @ r)) s = u" using s by simp
      moreover have "(r, cs') \<in> set (match_nodes ns (v @ r))"
        using uv(4) Cons.IH by blast
      ultimately show "(r, cs) \<in> set (match_nodes (n # ns) s)"
        using unfold uv(2) by blast
    qed
  qed
qed

lemma exec_None_iff:
  "exec r s = None \<longleftrightarrow> (\<forall>k \<le> length s. match_nodes r (drop k s) = [])"
proof (induction s)
  case Nil
  then show ?case by (auto split: list.splits)
next
  case (Cons c s)
  have "(\<forall>k \<le> length (c # s). match_nodes r (drop k (c # s)) = [])
          \<longleftrightarrow> match_nodes r (c # s) = [] \<and> (\<forall>k \<le> length s. match_nodes r (drop k s) = [])"
  proof
    assume a: "\<forall>k \<le> length (c # s). match_nodes r (drop k (c # s)) = []"
    have "match_nodes r (drop 0 (c # s)) = []" using a by blast
    moreover have "match_nodes r (drop k s) = []" if "k \<le> length s" for k
      using a [rule_format, of "Suc k"] that by simp
    ultimately show "match_nodes r (c # s) = [] \<and> (\<forall>k \<le> length s. match_nodes r (drop k s) = [])"
      by simp
  next
    assume a: "match_nodes r (c # s) = [] \<and> (\<forall>k \<le> length s. match_nodes r (drop k s) = [])"
    show "\<forall>k \<le> length (c # s). match_nodes r (drop k (c # s)) = []"
    proof (intro allI impI)
      fix k assume "k \<le> length (c # s)"
      then show "match_nodes r (drop k (c # s)) = []" using a by (cases k) auto
    qed
  qed
  then show ?case using Cons.IH by (auto split: list.splits)
qed

lemma exec_Some_first:
  "exec r s = Some cs \<Longrightarrow>
     \<exists>k \<le> length s. \<exists>x xs. match_nodes r (drop k s) = x # xs \<and> snd x = cs"
proof (induction s)
  case Nil
  then show ?case by (auto split: list.splits)
next
  case (Cons c s)
  show ?case
  proof (cases "match_nodes r (c # s)")
    case Nil
    then have "exec r s = Some cs" using Cons.prems by simp
    then obtain k x xs where "k \<le> length s" "match_nodes r (drop k s) = x # xs" "snd x = cs"
      using Cons.IH by blast
    then have "Suc k \<le> length (c # s) \<and> match_nodes r (drop (Suc k) (c # s)) = x # xs \<and> snd x = cs"
      by simp
    then show ?thesis by blast
  next
    case (Cons x xs)
    then have "snd x = cs" using Cons.prems by simp
    then have "0 \<le> length (c # s) \<and> match_nodes r (drop 0 (c # s)) = x # xs \<and> snd x = cs"
      using Cons by simp
    then show ?thesis by blast
  qed
qed

text \<open>The matcher decides whether some substring is in the language.\<close>

lemma test_iff:
  "test r s \<longleftrightarrow> (\<exists>pre u post cs. s = pre @ u @ post \<and> (u, cs) \<in> nodes_sem r)"
proof
  assume "test r s"
  then obtain k x where k: "k \<le> length s" "x \<in> set (match_nodes r (drop k s))"
    unfolding test_def exec_None_iff by (metis list.set_intros(1) neq_Nil_conv)
  obtain rest cs where x: "x = (rest, cs)" by (cases x)
  then obtain u where "drop k s = u @ rest" "(u, cs) \<in> nodes_sem r"
    using k(2) match_nodes_iff by blast
  then have "s = take k s @ u @ rest \<and> (u, cs) \<in> nodes_sem r"
    by (metis append_take_drop_id)
  then show "\<exists>pre u post cs. s = pre @ u @ post \<and> (u, cs) \<in> nodes_sem r" by blast
next
  assume "\<exists>pre u post cs. s = pre @ u @ post \<and> (u, cs) \<in> nodes_sem r"
  then obtain pre u post cs where s: "s = pre @ u @ post" and u: "(u, cs) \<in> nodes_sem r"
    by blast
  have "drop (length pre) s = u @ post" using s by simp
  then have "(post, cs) \<in> set (match_nodes r (drop (length pre) s))"
    using u match_nodes_iff by blast
  then have "match_nodes r (drop (length pre) s) \<noteq> []" by auto
  moreover have "length pre \<le> length s" using s by simp
  ultimately show "test r s" unfolding test_def exec_None_iff by blast
qed

section \<open>Lemmas on the shapes\<close>

lemma atom_lang_one: "atom_lang (Cls p 1 (Some 1)) = {[a] | a. p a}"
proof -
  have "(list_all p u \<and> 1 \<le> length u \<and> length u \<le> 1) \<longleftrightarrow> (\<exists>a. u = [a] \<and> p a)" for u
    by (cases u) auto
  then show ?thesis by auto
qed

lemma atom_lang_exact: "atom_lang (Cls p n (Some n)) = {u. length u = n \<and> list_all p u}"
  by auto

lemma nodes_sem_lit:
  "(w, cs) \<in> nodes_sem (Atom (Lit l) # ns) \<longleftrightarrow> (\<exists>v. w = l @ v \<and> (v, cs) \<in> nodes_sem ns)"
  by simp

lemma nodes_sem_one:
  "(w, cs) \<in> nodes_sem (Atom (Cls p 1 (Some 1)) # ns)
     \<longleftrightarrow> (\<exists>a v. w = a # v \<and> p a \<and> (v, cs) \<in> nodes_sem ns)"
proof -
  have "(w, cs) \<in> nodes_sem (Atom (Cls p 1 (Some 1)) # ns)
     \<longleftrightarrow> (\<exists>u v. w = u @ v \<and> u \<in> atom_lang (Cls p 1 (Some 1)) \<and> (v, cs) \<in> nodes_sem ns)"
    by (simp del: atom_lang.simps)
  also have "\<dots> \<longleftrightarrow> (\<exists>a v. w = a # v \<and> p a \<and> (v, cs) \<in> nodes_sem ns)"
  proof
    assume "\<exists>u v. w = u @ v \<and> u \<in> atom_lang (Cls p 1 (Some 1)) \<and> (v, cs) \<in> nodes_sem ns"
    then obtain u v a where "w = u @ v" "u = [a]" "p a" "(v, cs) \<in> nodes_sem ns"
      unfolding atom_lang_one by blast
    then have "w = a # v \<and> p a \<and> (v, cs) \<in> nodes_sem ns" by simp
    then show "\<exists>a v. w = a # v \<and> p a \<and> (v, cs) \<in> nodes_sem ns" by blast
  next
    assume "\<exists>a v. w = a # v \<and> p a \<and> (v, cs) \<in> nodes_sem ns"
    then obtain a v where "w = a # v" "p a" "(v, cs) \<in> nodes_sem ns" by blast
    then have "w = [a] @ v \<and> [a] \<in> atom_lang (Cls p 1 (Some 1)) \<and> (v, cs) \<in> nodes_sem ns"
      unfolding atom_lang_one by simp
    then show "\<exists>u v. w = u @ v \<and> u \<in> atom_lang (Cls p 1 (Some 1)) \<and> (v, cs) \<in> nodes_sem ns"
      by blast
  qed
  finally show ?thesis .
qed

lemma nodes_sem_exact_last:
  "(w, cs) \<in> nodes_sem [Atom (Cls p n (Some n))] \<longleftrightarrow> (length w = n \<and> list_all p w \<and> cs = [])"
proof -
  have "(w, cs) \<in> nodes_sem [Atom (Cls p n (Some n))]
     \<longleftrightarrow> (w \<in> atom_lang (Cls p n (Some n)) \<and> cs = [])"
    by (auto simp del: atom_lang.simps)
  then show ?thesis unfolding atom_lang_exact by auto
qed

lemma nodes_sem_url:
  "(u, cs) \<in> nodes_sem TRANSACTION_URL_REGEX \<longleftrightarrow> url_shape u \<and> cs = []"
  unfolding TRANSACTION_URL_REGEX_def url_shape_def
  by (simp only: nodes_sem_lit nodes_sem_one nodes_sem_exact_last) auto

lemma nodes_sem_reference:
  "(u, cs) \<in> nodes_sem TRANSACTION_REFERENCE_REGEX \<longleftrightarrow> reference_shape u \<and> cs = []"
  unfolding TRANSACTION_REFERENCE_REGEX_def reference_shape_def
  by (simp only: nodes_sem_lit nodes_sem_exact_last) auto

lemma test_url_iff: "test TRANSACTION_URL_REGEX s \<longleftrightarrow> contains url_shape s"
  unfolding test_iff contains_def nodes_sem_url by simp

lemma test_reference_iff: "test TRANSACTION_REFERENCE_REGEX s \<longleftrightarrow> contains reference_shape s"
  unfolding test_iff contains_def nodes_sem_reference by simp

lemma list_all_take: "list_all p xs \<Longrightarrow> list_all p (take n xs)"
  unfolding list_all_iff by (meson in_set_takeD)

lemma slice_last_length: "8 \<le> length s \<Longrightarrow> length (slice_last 8 s) = 8"
  by (simp add: slice_last_def)

lemma slice_but_last_take: "slice_but_last n s = take (length s - n) s"
  by (simp add: slice_but_last_def)

lemma url_shape_length: "url_shape u \<Longrightarrow> length u = 52"
  by (auto simp: url_shape_def)

lemma url_shape_split:
  assumes "url_shape u"
  shows "\<exists>P ref. u = P @ ref \<and> length P = 34 \<and> length ref = 18 \<and> list_all is_alnum ref
           \<and> (\<forall>ref'. length ref' = 18 \<and> list_all is_alnum ref' \<longrightarrow> url_shape (P @ ref'))"
proof -
  obtain a b c ref where u: "u = ''https://apps'' @ [a] @ ''cbe'' @ [b] @ ''com'' @ [c]
                        @ ''et:100/?id=FT'' @ ref"
    and d: "is_dot a" "is_dot b" "is_dot c" and r: "length ref = 18" "list_all is_alnum ref"
    using assms unfolding url_shape_def by blast
  let ?P = "''https://apps'' @ [a] @ ''cbe'' @ [b] @ ''com'' @ [c] @ ''et:100/?id=FT''"
  have 1: "u = ?P @ ref" using u by simp
  have 2: "length ?P = 34" by simp
  have 3: "\<forall>ref'. length ref' = 18 \<and> list_all is_alnum ref' \<longrightarrow> url_shape (?P @ ref')"
    unfolding url_shape_def using d by auto
  show ?thesis using 1 2 r 3 by blast
qed

lemma contains_url_length: "contains url_shape s \<Longrightarrow> 52 \<le> length s"
  unfolding contains_def using url_shape_length by fastforce

lemma contains_self: "shape s \<Longrightarrow> contains shape s"
  unfolding contains_def by (metis append_Nil append_Nil2)

lemma rebuilt_contains_url:
  assumes "contains url_shape input" and "length t = 8" and "list_all is_alnum t"
  shows "contains url_shape (slice_but_last 8 input @ t)"
proof -
  obtain pre u post where s: "input = pre @ u @ post" and u: "url_shape u"
    using assms(1) unfolding contains_def by blast
  obtain P ref where P: "u = P @ ref" "length P = 34" "length ref = 18" "list_all is_alnum ref"
    and repl: "\<forall>ref'. length ref' = 18 \<and> list_all is_alnum ref' \<longrightarrow> url_shape (P @ ref')"
    using url_shape_split [OF u] by blast
  show ?thesis
  proof (cases "8 \<le> length post")
    case True
    have "slice_but_last 8 input = pre @ u @ take (length post - 8) post"
      using True s by (simp add: slice_but_last_take)
    then have "slice_but_last 8 input @ t = pre @ u @ (take (length post - 8) post @ t)"
      by simp
    then show ?thesis using u unfolding contains_def by blast
  next
    case False
    define k where "k = 8 - length post"
    have k: "1 \<le> k" "k \<le> 8" "length post + k = 8" using False by (simp_all add: k_def)
    have "10 + length post = 18 - k" using k by linarith
    then have "slice_but_last 8 input = pre @ P @ take (18 - k) ref"
      using k s P by (simp add: slice_but_last_take)
    then have res: "slice_but_last 8 input @ t = pre @ P @ (take (18 - k) ref @ t)"
      by simp
    let ?w = "take (18 - k) ref @ t"
    have wl: "18 \<le> length ?w" using k P(3) assms(2) by simp
    have wa: "list_all is_alnum ?w"
      using list_all_take [OF P(4), of "18 - k"] assms(3) by simp
    have "length (take 18 ?w) = 18" using wl by simp
    moreover have "list_all is_alnum (take 18 ?w)"
      using wa by (rule list_all_take)
    ultimately have "url_shape (P @ take 18 ?w)" using repl by blast
    moreover have "slice_but_last 8 input @ t = pre @ (P @ take 18 ?w) @ drop 18 ?w"
      using res by (simp only: append_assoc append_take_drop_id)
    ultimately show ?thesis unfolding contains_def by blast
  qed
qed

lemma reference_not_url: "reference_shape s \<Longrightarrow> \<not> contains url_shape s"
proof
  assume "reference_shape s" and c: "contains url_shape s"
  then have "length s = 12" by (auto simp: reference_shape_def)
  then show False using contains_url_length [OF c] by simp
qed

lemmas regex_eval =
  test_def TRANSACTION_URL_REGEX_def TRANSACTION_REFERENCE_REGEX_def
  is_dot_def is_line_terminator_def is_alnum_def

lemma validateInput_string:
  "validateInput (Str input) =
     (if input = [] then Inl EmptyInput
      else if contains reference_shape input \<or> contains url_shape input then Inr ()
      else Inl InvalidInputFormat)"
  by (simp add: validateInput_def Let_def test_url_iff test_reference_iff)

section \<open>Lemmas on trimming\<close>

lemma trim_ends:
  assumes "trim s \<noteq> []"
  shows "\<not> is_space (hd (trim s)) \<and> \<not> is_space (last (trim s))"
proof -
  define u where "u = dropWhile is_space s"
  define v where "v = dropWhile is_space (rev u)"
  have t: "trim s = rev v" by (simp add: trim_def u_def v_def)
  have v: "v \<noteq> []" using assms t by simp
  have u: "u \<noteq> []" using v unfolding v_def by auto
  have "\<not> is_space (hd v)" using v unfolding v_def by (rule hd_dropWhile)
  then have l: "\<not> is_space (last (trim s))" using v t by (simp add: last_rev)
  have "rev u = takeWhile is_space (rev u) @ v" unfolding v_def by simp
  then have "last (rev u) = last v" using v by (metis last_appendR)
  then have "last v = hd u" using u by (simp add: last_rev)
  moreover have "\<not> is_space (hd u)" using u unfolding u_def by (rule hd_dropWhile)
  ultimately have "\<not> is_space (hd (trim s))" using v t by (simp add: hd_rev)
  then show ?thesis using l by simp
qed

lemma trimmed_capture_clean: "clean_field (trimmed_capture m)"
proof (cases m)
  case None
  then show ?thesis by (simp add: clean_field_def trimmed_capture_def)
next
  case (Some cs)
  show ?thesis
  proof (cases cs)
    case Nil
    then show ?thesis using Some by (simp add: clean_field_def trimmed_capture_def)
  next
    case (Cons c rest)
    then show ?thesis using Some trim_ends [of c]
      by (simp add: clean_field_def trimmed_capture_def)
  qed
qed

lemma extractTransactionDetails_record:
  "extractTransactionDetails parse now text config = Inr d \<Longrightarrow> d = details_of parse text"
  by (auto simp: extractTransactionDetails_def Let_def split: option.splits sum.splits)

section \<open>Lemmas on the captures\<close>

lemma nodes_sem_labelled:
  "(u, cs) \<in> nodes_sem (labelled label as)
     \<longleftrightarrow> (\<exists>ws c. u = label @ ws @ c \<and> list_all is_space ws \<and> c \<in> atoms_lang as \<and> cs = [c])"
  unfolding labelled_def by (simp del: atoms_lang.simps) blast

lemma exec_Some_sem:
  assumes "exec r s = Some cs"
  shows "\<exists>pre u post. s = pre @ u @ post \<and> (u, cs) \<in> nodes_sem r"
proof -
  obtain k x xs where k: "k \<le> length s" "match_nodes r (drop k s) = x # xs" "snd x = cs"
    using exec_Some_first [OF assms] by blast
  then have "(fst x, cs) \<in> set (match_nodes r (drop k s))" by (cases x) auto
  then obtain u where "drop k s = u @ fst x" "(u, cs) \<in> nodes_sem r"
    using match_nodes_iff by blast
  then have "s = take k s @ u @ fst x \<and> (u, cs) \<in> nodes_sem r"
    by (metis append_take_drop_id)
  then show ?thesis by blast
qed

lemma exec_labelled_Some:
  assumes "exec (labelled label as) text = Some cs"
  shows "\<exists>pre ws c rest. text = pre @ label @ ws @ c @ rest \<and> list_all is_space ws
           \<and> c \<in> atoms_lang as \<and> cs = [c]"
proof -
  obtain pre u post where t: "text = pre @ u @ post" and u: "(u, cs) \<in> nodes_sem (labelled label as)"
    using exec_Some_sem [OF assms] by blast
  obtain ws c where c: "u = label @ ws @ c" "list_all is_space ws" "c \<in> atoms_lang as" "cs = [c]"
    using u nodes_sem_labelled by blast
  have "text = pre @ label @ ws @ c @ post" using t c(1) by simp
  then show ?thesis using c by blast
qed

lemma exec_labelled_absent:
  assumes "\<not> contains (\<lambda>u. u = label) text"
  shows "exec (labelled label as) text = None"
proof (rule ccontr)
  assume "exec (labelled label as) text \<noteq> None"
  then obtain cs where "exec (labelled label as) text = Some cs" by blast
  then obtain pre ws c rest where "text = pre @ label @ ws @ c @ rest"
    using exec_labelled_Some by blast
  then have "contains (\<lambda>u. u = label) text" unfolding contains_def by blast
  then show False using assms by simp
qed

lemma concat_map_head:
  "concat (map f xs) = y # ys \<Longrightarrow> \<exists>x \<in> set xs. \<exists>ys'. f x = y # ys'"
proof (induction xs)
  case Nil
  then show ?case by simp
next
  case (Cons a xs)
  then show ?case by (cases "f a") auto
qed

lemma dot_plus_head:
  assumes "match_nodes [Group [Cls is_dot 1 None]] s = x # xs"
  shows "x = (dropWhile is_dot s, [takeWhile is_dot s]) \<and> takeWhile is_dot s \<noteq> []"
proof -
  define n where "n = length (takeWhile is_dot s)"
  have m: "match_nodes [Group [Cls is_dot 1 None]] s
             = map (\<lambda>k. (drop k s, [take (length s - length (drop k s)) s])) (rev [1..<Suc n])"
    by (simp add: n_def Let_def comp_def)
  have n: "1 \<le> n"
  proof (rule ccontr)
    assume "\<not> 1 \<le> n"
    then have "rev [1..<Suc n] = []" by simp
    then show False using m assms by simp
  qed
  then have "rev [1..<Suc n] = n # rev [1..<n]" by simp
  then have x: "x = (drop n s, [take (length s - length (drop n s)) s])"
    using m assms by simp
  have le: "n \<le> length s" unfolding n_def by (rule length_takeWhile_le)
  have d: "drop n s = dropWhile is_dot s" unfolding n_def by (rule dropWhile_eq_drop [symmetric])
  have "take (length s - length (drop n s)) s = take n s" using le by simp
  also have "\<dots> = takeWhile is_dot s" unfolding n_def by (rule takeWhile_eq_take [symmetric])
  finally have "x = (dropWhile is_dot s, [takeWhile is_dot s])" using x d by simp
  moreover have "takeWhile is_dot s \<noteq> []" using n unfolding n_def by auto
  ultimately show ?thesis by simp
qed

lemma labelled_line_head:
  assumes "match_nodes (labelled label [Cls is_dot 1 None]) t = x # xs"
  shows "\<exists>ws c rest. t = label @ ws @ c @ rest \<and> list_all is_space ws \<and> snd x = [c]
           \<and> c \<noteq> [] \<and> list_all is_dot c \<and> (rest = [] \<or> \<not> is_dot (hd rest))"
proof -
  have "(fst x, snd x) \<in> set (match_nodes (labelled label [Cls is_dot 1 None]) t)"
    using assms by simp
  then obtain u where "t = u @ fst x" "(u, snd x) \<in> nodes_sem (labelled label [Cls is_dot 1 None])"
    using match_nodes_iff by blast
  then obtain r where t: "t = label @ r"
    using nodes_sem_labelled by (metis append.assoc)
  have "match_nodes (labelled label [Cls is_dot 1 None]) t
          = concat (map (match_nodes [Atom (Cls is_space 0 None), Group [Cls is_dot 1 None]])
                        (match_atom (Lit label) (label @ r)))"
    unfolding labelled_def t by (simp only: match_nodes.simps)
  also have "\<dots> = match_nodes [Atom (Cls is_space 0 None), Group [Cls is_dot 1 None]] r"
    by simp
  also have "\<dots> = concat (map (match_nodes [Group [Cls is_dot 1 None]])
                        (match_atom (Cls is_space 0 None) r))"
    by (simp only: match_nodes.simps)
  finally have "match_nodes (labelled label [Cls is_dot 1 None]) t
          = concat (map (match_nodes [Group [Cls is_dot 1 None]])
                        (match_atom (Cls is_space 0 None) r))" .
  then obtain r1 ys where r1: "r1 \<in> set (match_atom (Cls is_space 0 None) r)"
      and h: "match_nodes [Group [Cls is_dot 1 None]] r1 = x # ys"
    using assms concat_map_head by metis
  obtain ws where ws: "r = ws @ r1" "list_all is_space ws"
    using r1 match_atom_iff [of r1 "Cls is_space 0 None" r] by auto
  have x: "x = (dropWhile is_dot r1, [takeWhile is_dot r1])" "takeWhile is_dot r1 \<noteq> []"
    using dot_plus_head [OF h] by simp_all
  let ?c = "takeWhile is_dot r1" and ?rest = "dropWhile is_dot r1"
  have "t = label @ ws @ ?c @ ?rest" using t ws(1) by simp
  moreover have "list_all is_dot ?c" by (simp add: list_all_iff) (meson set_takeWhileD)
  moreover have "?rest = [] \<or> \<not> is_dot (hd ?rest)" using hd_dropWhile by blast
  ultimately show ?thesis using ws(2) x by (metis snd_conv)
qed

lemma exec_line_capture:
  assumes "exec (labelled label [Cls is_dot 1 None]) text = Some cs"
  shows "\<exists>c. cs = [c] \<and> line_capture label text c"
proof -
  obtain k x xs where k: "k \<le> length text"
      "match_nodes (labelled label [Cls is_dot 1 None]) (drop k text) = x # xs" "snd x = cs"
    using exec_Some_first [OF assms] by blast
  obtain ws c rest where c: "drop k text = label @ ws @ c @ rest" "list_all is_space ws"
      "snd x = [c]" "c \<noteq> []" "list_all is_dot c" "rest = [] \<or> \<not> is_dot (hd rest)"
    using labelled_line_head [OF k(2)] by blast
  have "text = take k text @ label @ ws @ c @ rest"
    using c(1) by (metis append_take_drop_id)
  moreover have "list_all (\<lambda>x. \<not> is_line_terminator x) c"
    using c(5) by (simp add: list_all_iff is_dot_def)
  moreover have "rest = [] \<or> is_line_terminator (hd rest)"
    using c(6) by (simp add: is_dot_def)
  ultimately have "line_capture label text c"
    unfolding line_capture_def using c(2,4) by blast
  then show ?thesis using c(3) k(3) by simp
qed

lemma occurs_in_contains: "contains (\<lambda>u. u = label) text \<longleftrightarrow> occurs_in label text"
  unfolding contains_def occurs_in_def by simp

lemma occurs_in_code: "occurs_in l t \<longleftrightarrow> after_first l t \<noteq> None"
proof (induction t)
  case Nil
  then show ?case by (simp add: occurs_in_def)
next
  case (Cons c s)
  show ?case
  proof (cases "take (length l) (c # s) = l")
    case True
    then have "c # s = [] @ l @ drop (length l) (c # s)"
      by (metis append_Nil append_take_drop_id)
    then have "occurs_in l (c # s)" unfolding occurs_in_def by blast
    then show ?thesis using True by simp
  next
    case False
    have "occurs_in l (c # s) \<longleftrightarrow> occurs_in l s"
    proof
      assume "occurs_in l (c # s)"
      then obtain pre post where p: "c # s = pre @ l @ post" unfolding occurs_in_def by blast
      show "occurs_in l s"
      proof (cases pre)
        case Nil
        then have "take (length l) (c # s) = l" using p by simp
        then show ?thesis using False by simp
      next
        case (Cons a pre')
        then have "s = pre' @ l @ post" using p by simp
        then show ?thesis unfolding occurs_in_def by blast
      qed
    next
      assume "occurs_in l s"
      then obtain pre post where "s = pre @ l @ post" unfolding occurs_in_def by blast
      then have "c # s = (c # pre) @ l @ post" by simp
      then show "occurs_in l (c # s)" unfolding occurs_in_def by blast
    qed
    then show ?thesis using False Cons.IH by simp
  qed
qed

lemma atoms_lang_lit:
  "w \<in> atoms_lang (Lit l # as) \<longleftrightarrow> (\<exists>v. w = l @ v \<and> v \<in> atoms_lang as)"
  by simp

lemma atoms_lang_cls:
  "w \<in> atoms_lang (Cls p lo (Some hi) # as)
     \<longleftrightarrow> (\<exists>u v. w = u @ v \<and> list_all p u \<and> lo \<le> length u \<and> length u \<le> hi
                 \<and> v \<in> atoms_lang as)"
  by auto

lemma atoms_lang_alts_last: "w \<in> atoms_lang [Alts ls] \<longleftrightarrow> w \<in> set ls"
  by simp

lemma date_atoms_format: "c \<in> atoms_lang date_atoms \<Longrightarrow> receipt_date_format c"
  unfolding date_atoms_def receipt_date_format_def
  apply (simp only: atoms_lang_lit atoms_lang_cls atoms_lang_alts_last)
  apply (elim exE conjE)
  apply hypsubst
  apply (intro exI conjI)
  apply (rule refl)
  apply (assumption | simp)+
  done

lemma regex_labelled:
  "REFERENCE_NUMBER = labelled ''Reference No. (VAT Invoice No)'' [Cls is_dot 1 None]"
  "RECEIVER = labelled ''Receiver'' [Cls is_dot 1 None]"
  "PAYER = labelled ''Payer'' [Cls is_dot 1 None]"
  "PAYMENT_DATE_TIME = labelled ''Payment Date & Time'' date_atoms"
  "TOTAL_AMOUNT = labelled ''Total amount debited from customers account''
                    [Cls is_amount_char 1 None, Cls is_space 0 None, Lit ''ETB'']"
  by (simp_all add: REFERENCE_NUMBER_def RECEIVER_def PAYER_def PAYMENT_DATE_TIME_def
      TOTAL_AMOUNT_def labelled_def date_atoms_def)

lemma digit_not_space: "is_digit x \<Longrightarrow> \<not> is_space x \<and> \<not> is_line_terminator x"
  by (auto simp: is_digit_def is_space_def is_line_terminator_def)

lemma all_digits_no_terminator:
  "list_all is_digit u \<Longrightarrow> list_all (\<lambda>x. \<not> is_line_terminator x) u"
  unfolding list_all_iff using digit_not_space by blast

lemma trim_id:
  assumes "s \<noteq> []" and "\<not> is_space (hd s)" and "\<not> is_space (last s)"
  shows "trim s = s"
proof -
  have 1: "dropWhile is_space s = s" using assms(2) by (simp add: dropWhile_eq_self_iff)
  have "hd (rev s) = last s" using assms(1) by (simp add: hd_rev)
  then have 2: "dropWhile is_space (rev s) = rev s"
    using assms(3) by (simp add: dropWhile_eq_self_iff)
  show ?thesis unfolding trim_def 1 2 by simp
qed

lemma receipt_date_format_chars:
  assumes "receipt_date_format c"
  shows "c \<noteq> [] \<and> trim c = c \<and> list_all (\<lambda>x. \<not> is_line_terminator x) c"
proof -
  obtain mo dy yr hr mi sc ap where
    c: "c = mo @ ''/'' @ dy @ ''/'' @ yr @ '', '' @ hr @ '':'' @ mi @ '':'' @ sc @ '' '' @ ap"
    and mo: "list_all is_digit mo" "1 \<le> length mo"
    and ds: "list_all is_digit dy" "list_all is_digit yr" "list_all is_digit hr"
            "list_all is_digit mi" "list_all is_digit sc"
    and ap: "ap = ''AM'' \<or> ap = ''PM''"
    using assms unfolding receipt_date_format_def by blast
  obtain m mo' where m: "mo = m # mo'" using mo(2) by (cases mo) auto
  have ne: "c \<noteq> []" using c m by simp
  have "hd c = m" using c m by simp
  moreover have "is_digit m" using mo(1) m by simp
  ultimately have h: "\<not> is_space (hd c)" using digit_not_space by simp
  have "last c = CHR ''M''" using c ap by auto
  then have l: "\<not> is_space (last c)" by (simp add: is_space_def)
  have t: "list_all (\<lambda>x. \<not> is_line_terminator x) ap"
    using ap by (auto simp: is_line_terminator_def)
  have "list_all (\<lambda>x. \<not> is_line_terminator x) c"
    unfolding c
    using all_digits_no_terminator [OF mo(1)] all_digits_no_terminator [OF ds(1)]
      all_digits_no_terminator [OF ds(2)] all_digits_no_terminator [OF ds(3)]
      all_digits_no_terminator [OF ds(4)] all_digits_no_terminator [OF ds(5)] t
    by (simp add: is_line_terminator_def)
  then show ?thesis using ne trim_id [OF ne h l] by simp
qed

lemma exec_date_capture:
  assumes "exec PAYMENT_DATE_TIME text = Some cs"
  shows "\<exists>c. cs = [c] \<and> receipt_date_format c
           \<and> one_line_capture ''Payment Date & Time'' text c \<and> trim c = c"
proof -
  obtain pre ws c rest where c: "text = pre @ ''Payment Date & Time'' @ ws @ c @ rest"
      "list_all is_space ws" "c \<in> atoms_lang date_atoms" "cs = [c]"
    using assms exec_labelled_Some unfolding regex_labelled by blast
  have f: "receipt_date_format c" using c(3) by (rule date_atoms_format)
  have p: "c \<noteq> []" "trim c = c" "list_all (\<lambda>x. \<not> is_line_terminator x) c"
    using receipt_date_format_chars [OF f] by simp_all
  have "one_line_capture ''Payment Date & Time'' text c"
    unfolding one_line_capture_def using c(1,2) p(1,3) by blast
  then show ?thesis using c(4) f p(2) by simp
qed

lemma absent_label_no_match:
  "\<not> occurs_in label text \<Longrightarrow> exec (labelled label as) text = None"
  using exec_labelled_absent occurs_in_contains by blast

lemma extractPaymentDateTime_capture:
  assumes "exec PAYMENT_DATE_TIME text = Some [c]" and "trim c = c" and "c \<noteq> []"
  shows "extractPaymentDateTime parse text = Some (Date (parse c))"
  using assms by (simp add: extractPaymentDateTime_def)

lemma invalid_date_accepted:
  assumes "parse c = None"
    and "extractPaymentDateTime parse text = Some (Date (parse c))"
  shows "paymentDateTime (details_of parse text) = Some (Date None)
          \<and> (extractReferenceNumber text \<noteq> None \<longrightarrow>
                extractTransactionDetails parse now text config = Inr (details_of parse text))"
proof (intro conjI impI)
  show pd: "paymentDateTime (details_of parse text) = Some (Date None)"
    using assms by (simp add: details_of_def)
  assume "extractReferenceNumber text \<noteq> None"
  then obtain r where "extractReferenceNumber text = Some r" by blast
  then have rf: "transactionRefNumber (details_of parse text) = Some r"
    by (simp add: details_of_def)
  have age: "validateTransactionAge now (Date None) m = Inr ()" for m
    by (simp add: validateTransactionAge_def dayjs_diff_hours_def)
  show "extractTransactionDetails parse now text config = Inr (details_of parse text)"
    unfolding extractTransactionDetails_def Let_def
    by (simp only: rf pd age option.case sum.case)
qed

section \<open>The age of a transaction\<close>

text \<open>
  Claim C1. For a payment timestamp that is a point in time and a positive
  \<open>maxAgeHours\<close>, the age is the number of whole hours between \<open>now\<close> and the
  timestamp, truncated towards zero, and the validation fails with
  \<open>TransactionTooOld\<close> exactly when that integer is strictly greater than
  \<open>maxAgeHours\<close>. A timestamp exactly \<open>maxAgeHours\<close> in the past is accepted and
  one a further hour older is rejected.
\<close>

theorem validateTransactionAge_threshold:
  fixes m :: rat
  assumes "0 < m"
  shows "(\<exists>h. dayjs_diff_hours now (Date (Some t)) = Some h
           \<and> \<bar>h\<bar> * 3600000 \<le> \<bar>now - t\<bar> \<and> \<bar>now - t\<bar> < (\<bar>h\<bar> + 1) * 3600000
           \<and> 0 \<le> h * (now - t)
           \<and> (validateTransactionAge now (Date (Some t)) m = Inl TransactionTooOld
                \<longleftrightarrow> m < of_int h)
           \<and> (validateTransactionAge now (Date (Some t)) m = Inr () \<longleftrightarrow> \<not> m < of_int h))
       \<and> (of_int (now - t) = m * 3600000 \<longrightarrow>
           validateTransactionAge now (Date (Some t)) m = Inr ()
           \<and> validateTransactionAge now (Date (Some (t - 3600000))) m = Inl TransactionTooOld)"
proof (intro conjI impI)
  show "\<exists>h. dayjs_diff_hours now (Date (Some t)) = Some h
           \<and> \<bar>h\<bar> * 3600000 \<le> \<bar>now - t\<bar> \<and> \<bar>now - t\<bar> < (\<bar>h\<bar> + 1) * 3600000
           \<and> 0 \<le> h * (now - t)
           \<and> (validateTransactionAge now (Date (Some t)) m = Inl TransactionTooOld
                \<longleftrightarrow> m < of_int h)
           \<and> (validateTransactionAge now (Date (Some t)) m = Inr () \<longleftrightarrow> \<not> m < of_int h)"
    using absFloor_truncates [of "now - t"]
    by (simp add: validateTransactionAge_valid dayjs_diff_hours_def)
next
  assume eq: "of_int (now - t) = m * 3600000"
  have a: "\<not> m < of_int (absFloor (now - t) MILLISECONDS_A_HOUR)"
    by (rule at_threshold(1) [OF assms eq])
  then show "validateTransactionAge now (Date (Some t)) m = Inr ()"
    by (simp only: validateTransactionAge_valid if_False)
next
  assume eq: "of_int (now - t) = m * 3600000"
  have e: "now - (t - 3600000) = (now - t) + 3600000" by simp
  have b: "m < of_int (absFloor (now - (t - 3600000)) MILLISECONDS_A_HOUR)"
    unfolding e by (rule at_threshold(2) [OF assms eq])
  then show "validateTransactionAge now (Date (Some (t - 3600000))) m = Inl TransactionTooOld"
    by (simp only: validateTransactionAge_valid if_True)
qed

theorem validateTransactionAge_threshold_witness:
  "(0::rat) < 24
   \<and> validateTransactionAge 1703514645000 (Date (Some 1703428245000)) 24 = Inr ()
   \<and> validateTransactionAge 1703514645000 (Date (Some (1703428245000 - 3600000))) 24
       = Inl TransactionTooOld"
proof -
  have p: "(0::rat) < 24" by simp
  have e: "of_int (1703514645000 - 1703428245000) = (24::rat) * 3600000" by simp
  show ?thesis
    using validateTransactionAge_threshold [OF p, of 1703514645000 1703428245000] e p
    by blast
qed

text \<open>
  Claim C10. A payment timestamp at or after the current time gives an hour difference
  that is zero or negative, which never exceeds a positive \<open>maxAgeHours\<close>: a
  future-dated transaction is never rejected as too old.
\<close>

theorem future_dated_accepted:
  fixes m :: rat
  assumes "now \<le> t" and "0 < m"
  shows "\<exists>h. dayjs_diff_hours now (Date (Some t)) = Some h \<and> h \<le> 0
           \<and> validateTransactionAge now (Date (Some t)) m = Inr ()"
proof -
  let ?h = "absFloor (now - t) MILLISECONDS_A_HOUR"
  have "?h \<le> 0"
  proof (cases "now - t < 0")
    case True
    then have "0 \<le> (- (now - t)) div 3600000" by (simp add: pos_imp_zdiv_nonneg_iff)
    then show ?thesis using True by (simp add: absFloor_def MILLISECONDS_A_HOUR_def)
  next
    case False
    then have "now - t = 0" using assms(1) by simp
    then show ?thesis by (simp add: absFloor_def MILLISECONDS_A_HOUR_def)
  qed
  then have "(of_int ?h :: rat) \<le> 0" by simp
  then have "\<not> m < of_int ?h" using assms(2) by linarith
  then show ?thesis using \<open>?h \<le> 0\<close>
    by (simp add: validateTransactionAge_valid dayjs_diff_hours_def)
qed

theorem future_dated_accepted_witness:
  "(1703514645000::int) \<le> 1703600000000 \<and> (0::rat) < 24
   \<and> validateTransactionAge 1703514645000 (Date (Some 1703600000000)) 24 = Inr ()"
proof -
  have a: "(1703514645000::int) \<le> 1703600000000" by simp
  have b: "(0::rat) < 24" by simp
  show ?thesis using future_dated_accepted [OF a b] a b by blast
qed

section \<open>Classification and the fetch URL\<close>

text \<open>
  Claim C2. An input is to be treated as URL-shaped only if the whole string conforms to
  the URL shape. The code searches the pattern anywhere in the input. At a URL with text
  before and after it, which does not conform as a whole, the test of the URL pattern
  succeeds, the validation accepts the input, and the URL that is built is the input
  without its last 8 characters, followed by the last 8 characters of the account
  number: it still begins with the text before the URL.
\<close>

theorem embedded_url_accepted_as_url:
  "\<not> conforms_to_url_shape ''see https://apps.cbe.com.et:100/?id=FT25200VMC5G56280011 please''
   \<and> test TRANSACTION_URL_REGEX
         ''see https://apps.cbe.com.et:100/?id=FT25200VMC5G56280011 please''
   \<and> validateInput (Str ''see https://apps.cbe.com.et:100/?id=FT25200VMC5G56280011 please'')
       = Inr ()
   \<and> constructPdfUrl ''see https://apps.cbe.com.et:100/?id=FT25200VMC5G56280011 please''
        ''1000188961473''
       = Inr ''see https://apps.cbe.com.et:100/?id=FT25200VMC5G562800188961473''"
proof -
  let ?input = "''see https://apps.cbe.com.et:100/?id=FT25200VMC5G56280011 please''"
  have n: "\<not> conforms_to_url_shape ?input"
    by (simp add: conforms_to_url_shape_def CBE_VERIFICATION_BASE_URL_def)
  have t: "test TRANSACTION_URL_REGEX ?input"
    by (simp add: regex_eval)
  have v: "validateInput (Str ?input) = Inr ()"
    using t by (simp add: validateInput_def Let_def)
  have u: "constructPdfUrl ?input ''1000188961473''
             = Inr (slice_but_last 8 ?input @ slice_last 8 ''1000188961473'')"
    using t by (simp add: constructPdfUrl_def)
  have e: "slice_but_last 8 ?input @ slice_last 8 ''1000188961473''
             = ''see https://apps.cbe.com.et:100/?id=FT25200VMC5G562800188961473''"
    by (simp add: slice_but_last_def slice_last_def)
  show ?thesis using n t v u unfolding e by simp
qed

text \<open>
  Claim C4. For an input that passed the classification: a URL-shaped input gives its
  characters without the last 8, followed by the last 8 characters of the account
  number; any other input, a bare reference code in particular, gives the base URL, the
  query key, the input and the last 8 characters of the account number. The last 8
  characters of an account number shorter than 8 are the whole account number.
\<close>

theorem constructPdfUrl_after_classification:
  assumes "validateInput (Str input) = Inr ()"
  shows "(test TRANSACTION_URL_REGEX input \<longrightarrow>
            constructPdfUrl input acct = Inr (take (length input - 8) input @ slice_last 8 acct)
            \<and> 8 \<le> length input)
       \<and> (\<not> test TRANSACTION_URL_REGEX input \<longrightarrow>
            constructPdfUrl input acct
              = Inr (CBE_VERIFICATION_BASE_URL @ ''/?id='' @ input @ slice_last 8 acct))
       \<and> (reference_shape input \<longrightarrow>
            constructPdfUrl input acct
              = Inr (CBE_VERIFICATION_BASE_URL @ ''/?id='' @ input @ slice_last 8 acct))
       \<and> (length acct < 8 \<longrightarrow> slice_last 8 acct = acct)
       \<and> (8 \<le> length acct \<longrightarrow> slice_last 8 acct = drop (length acct - 8) acct
                                  \<and> length (slice_last 8 acct) = 8)"
proof -
  have ok: "test TRANSACTION_REFERENCE_REGEX input \<or> test TRANSACTION_URL_REGEX input"
    using assms by (auto simp: validateInput_def Let_def split: if_splits)
  have 1: "constructPdfUrl input acct = Inr (take (length input - 8) input @ slice_last 8 acct)
            \<and> 8 \<le> length input" if "test TRANSACTION_URL_REGEX input"
  proof -
    have "52 \<le> length input" using that contains_url_length test_url_iff by blast
    then show ?thesis using that by (simp add: constructPdfUrl_def slice_but_last_take)
  qed
  have 2: "constructPdfUrl input acct
              = Inr (CBE_VERIFICATION_BASE_URL @ ''/?id='' @ input @ slice_last 8 acct)"
    if "\<not> test TRANSACTION_URL_REGEX input"
    using that ok by (simp add: constructPdfUrl_def)
  have 3: "\<not> test TRANSACTION_URL_REGEX input" if "reference_shape input"
    using reference_not_url [OF that] test_url_iff by blast
  show ?thesis using 1 2 3 by (simp add: slice_last_def)
qed

theorem constructPdfUrl_after_classification_witness:
  "validateInput (Str ''FT25200VMC5N56279011'') = Inr ()
   \<and> constructPdfUrl ''FT25200VMC5N56279011'' ''1000188961473''
       = Inr ''https://apps.cbe.com.et:100/?id=FT25200VMC5N5627901188961473''
   \<and> validateInput (Str ''https://apps.cbe.com.et:100/?id=FT25200VMC5N56279011'') = Inr ()
   \<and> constructPdfUrl ''https://apps.cbe.com.et:100/?id=FT25200VMC5N56279011'' ''1234''
       = Inr ''https://apps.cbe.com.et:100/?id=FT25200VMC5N1234''"
proof -
  let ?ref = "''FT25200VMC5N56279011''"
  let ?url = "''https://apps.cbe.com.et:100/?id=FT25200VMC5N56279011''"
  have v1: "validateInput (Str ?ref) = Inr ()"
    by (simp add: validateInput_def regex_eval)
  have n1: "\<not> test TRANSACTION_URL_REGEX ?ref" by (simp add: regex_eval)
  have v2: "validateInput (Str ?url) = Inr ()"
    by (simp add: validateInput_def regex_eval)
  have u2: "test TRANSACTION_URL_REGEX ?url" by (simp add: regex_eval)
  have "constructPdfUrl ?ref ''1000188961473''
          = Inr (CBE_VERIFICATION_BASE_URL @ ''/?id='' @ ?ref @ slice_last 8 ''1000188961473'')"
    using constructPdfUrl_after_classification [OF v1, of "''1000188961473''"] n1 by blast
  moreover have "constructPdfUrl ?url ''1234''
          = Inr (take (length ?url - 8) ?url @ slice_last 8 ''1234'')
         \<and> slice_last 8 ''1234'' = ''1234''"
    using constructPdfUrl_after_classification [OF v2, of "''1234''"] u2 by simp
  ultimately show ?thesis
    using v1 v2 by (simp add: CBE_VERIFICATION_BASE_URL_def slice_last_def)
qed

text \<open>
  Claim C5. The empty string, and a value that is no string, fail with \<open>EmptyInput\<close>
  for every configuration, and the list of calls of the retrieval is unchanged: the
  document is never fetched.
\<close>

theorem empty_input_fails_before_retrieval:
  "verifyDirectDeposit fetch parse now (Str []) config calls = (Inl EmptyInput, calls)
   \<and> verifyDirectDeposit fetch parse now NotAString config calls = (Inl EmptyInput, calls)"
  by (simp add: verifyDirectDeposit_def validateInput_def)

text \<open>
  Claim C7, as stated, holds for every account number. With an account number of 7
  characters the rebuilt URL has only 17 characters after the prefix and is no longer
  URL-shaped.
\<close>

theorem rebuilt_url_short_account_counterexample:
  "test TRANSACTION_URL_REGEX ''https://apps.cbe.com.et:100/?id=FT25200VMC5N56279011''
   \<and> constructPdfUrl ''https://apps.cbe.com.et:100/?id=FT25200VMC5N56279011'' ''1234567''
       = Inr ''https://apps.cbe.com.et:100/?id=FT25200VMC5N1234567''
   \<and> \<not> test TRANSACTION_URL_REGEX ''https://apps.cbe.com.et:100/?id=FT25200VMC5N1234567''"
  by (simp add: constructPdfUrl_def regex_eval slice_but_last_def slice_last_def)

text \<open>
  Claim C7, amended. For a URL-shaped input and an account number of at least 8
  characters whose last 8 characters are alphanumeric, the URL that is built is
  URL-shaped again.
\<close>

theorem rebuilt_url_still_url_shaped:
  assumes "test TRANSACTION_URL_REGEX input"
    and "8 \<le> length acct"
    and "list_all is_alnum (slice_last 8 acct)"
  shows "constructPdfUrl input acct = Inr (slice_but_last 8 input @ slice_last 8 acct)
       \<and> test TRANSACTION_URL_REGEX (slice_but_last 8 input @ slice_last 8 acct)"
proof -
  have c: "contains url_shape input" using assms(1) test_url_iff by blast
  have "contains url_shape (slice_but_last 8 input @ slice_last 8 acct)"
    using c slice_last_length [OF assms(2)] assms(3) by (rule rebuilt_contains_url)
  then show ?thesis using assms(1) by (simp add: constructPdfUrl_def test_url_iff)
qed

theorem rebuilt_url_still_url_shaped_witness:
  "test TRANSACTION_URL_REGEX ''https://apps.cbe.com.et:100/?id=FT25200VMC5N56279011''
   \<and> 8 \<le> length ''1000188961473''
   \<and> list_all is_alnum (slice_last 8 ''1000188961473'')
   \<and> constructPdfUrl ''https://apps.cbe.com.et:100/?id=FT25200VMC5N56279011'' ''1000188961473''
       = Inr ''https://apps.cbe.com.et:100/?id=FT25200VMC5N88961473''
   \<and> test TRANSACTION_URL_REGEX ''https://apps.cbe.com.et:100/?id=FT25200VMC5N88961473''"
proof -
  let ?url = "''https://apps.cbe.com.et:100/?id=FT25200VMC5N56279011''"
  have a: "test TRANSACTION_URL_REGEX ?url" by (simp add: regex_eval)
  have b: "8 \<le> length ''1000188961473''" by simp
  have c: "list_all is_alnum (slice_last 8 ''1000188961473'')"
    by (simp add: slice_last_def is_alnum_def)
  have e: "slice_but_last 8 ?url @ slice_last 8 ''1000188961473''
             = ''https://apps.cbe.com.et:100/?id=FT25200VMC5N88961473''"
    by (simp add: slice_but_last_def slice_last_def)
  show ?thesis using rebuilt_url_still_url_shaped [OF a b c] a b c unfolding e by blast
qed

text \<open>
  Claim C9. An input that has any three characters other than line terminators in
  place of the dots of the host is URL-shaped, passes the validation of the input, and
  with a non-empty account number its URL, the last 8 characters replaced, is handed to
  the retrieval of the document.
\<close>

theorem unescaped_dots_accepted:
  assumes "is_dot a" and "is_dot b" and "is_dot c"
    and "length ref = 18" and "list_all is_alnum ref"
    and "cbeAccountNumber config \<noteq> []"
  shows "test TRANSACTION_URL_REGEX (url_with_separators a b c ref)
       \<and> validateInput (Str (url_with_separators a b c ref)) = Inr ()
       \<and> verifyDirectDeposit fetch parse now (Str (url_with_separators a b c ref)) config calls
           = (case fetch (slice_but_last 8 (url_with_separators a b c ref)
                            @ slice_last 8 (cbeAccountNumber config)) config of
                Inl e \<Rightarrow> Inl e
              | Inr pdfText \<Rightarrow> extractTransactionDetails parse now pdfText config,
              calls @ [slice_but_last 8 (url_with_separators a b c ref)
                         @ slice_last 8 (cbeAccountNumber config)])"
proof -
  let ?input = "url_with_separators a b c ref"
  have "url_shape ?input"
    unfolding url_shape_def url_with_separators_def using assms(1-5) by blast
  then have c: "contains url_shape ?input" by (rule contains_self)
  then have t: "test TRANSACTION_URL_REGEX ?input" using test_url_iff by blast
  have "?input \<noteq> []" by (simp add: url_with_separators_def)
  then have v: "validateInput (Str ?input) = Inr ()"
    using c by (simp add: validateInput_string)
  have u: "constructPdfUrl ?input (cbeAccountNumber config)
             = Inr (slice_but_last 8 ?input @ slice_last 8 (cbeAccountNumber config))"
    using t by (simp add: constructPdfUrl_def)
  show ?thesis using t v u assms(6)
    by (simp add: verifyDirectDeposit_def split: sum.splits)
qed

theorem unescaped_dots_accepted_witness:
  "url_with_separators (CHR ''X'') (CHR ''Y'') (CHR ''Z'') ''012345678901234567''
     = ''https://appsXcbeYcomZet:100/?id=FT012345678901234567''
   \<and> test TRANSACTION_URL_REGEX ''https://appsXcbeYcomZet:100/?id=FT012345678901234567''
   \<and> validateInput (Str ''https://appsXcbeYcomZet:100/?id=FT012345678901234567'') = Inr ()
   \<and> snd (verifyDirectDeposit (\<lambda>url config. Inl (DocumentRetrievalFailed url)) parse_receipt_date 0
        (Str ''https://appsXcbeYcomZet:100/?id=FT012345678901234567'')
        \<lparr>cbeAccountNumber = ''1000188961473'', maxTransactionAgeHours = None,
          rejectUnauthorized = None\<rparr> [])
       = [''https://appsXcbeYcomZet:100/?id=FT012345678988961473'']"
proof -
  let ?config = "\<lparr>cbeAccountNumber = ''1000188961473'', maxTransactionAgeHours = None,
          rejectUnauthorized = None\<rparr>"
  have e: "url_with_separators (CHR ''X'') (CHR ''Y'') (CHR ''Z'') ''012345678901234567''
     = ''https://appsXcbeYcomZet:100/?id=FT012345678901234567''"
    by (simp add: url_with_separators_def)
  have d: "is_dot (CHR ''X'')" "is_dot (CHR ''Y'')" "is_dot (CHR ''Z'')"
    by (simp_all add: is_dot_def is_line_terminator_def)
  have r: "length ''012345678901234567'' = 18" "list_all is_alnum ''012345678901234567''"
    by (simp_all add: is_alnum_def)
  have a: "cbeAccountNumber ?config \<noteq> []" by simp
  show ?thesis
    using unescaped_dots_accepted [OF d r a,
        of "\<lambda>url config. Inl (DocumentRetrievalFailed url)" parse_receipt_date 0 "[]"]
    unfolding e by (simp add: slice_but_last_def slice_last_def)
qed

section \<open>The extracted fields\<close>

text \<open>
  Claim C8. Each of the four string fields (reference, amount, receiver, payer) is
  absent, or a string that is not empty and has no leading or trailing white space, both
  as the extractors return them and in the record of a successful extraction. A capture
  that trims to the empty string gives an absent field, never the empty string.
\<close>

theorem string_fields_trimmed_or_absent:
  "clean_field (extractReferenceNumber text)
   \<and> clean_field (extractTotalAmount text)
   \<and> clean_field (extractReceiver text)
   \<and> clean_field (extractPayer text)
   \<and> (\<forall>d. extractTransactionDetails parse now text config = Inr d \<longrightarrow>
          clean_field (transactionRefNumber d) \<and> clean_field (totalAmountDebited d)
          \<and> clean_field (receiver d) \<and> clean_field (payer d))
   \<and> (\<forall>c cs. trim c = [] \<longrightarrow> trimmed_capture (Some (c # cs)) = None)"
proof (intro conjI allI impI)
  show "clean_field (extractReferenceNumber text)"
    unfolding extractReferenceNumber_def by (rule trimmed_capture_clean)
  show "clean_field (extractTotalAmount text)"
    unfolding extractTotalAmount_def by (rule trimmed_capture_clean)
  show "clean_field (extractReceiver text)"
    unfolding extractReceiver_def by (rule trimmed_capture_clean)
  show "clean_field (extractPayer text)"
    unfolding extractPayer_def by (rule trimmed_capture_clean)
next
  fix d assume "extractTransactionDetails parse now text config = Inr d"
  then have d: "d = details_of parse text" by (rule extractTransactionDetails_record)
  show "clean_field (transactionRefNumber d)"
    unfolding d details_of_def extractReferenceNumber_def by (simp add: trimmed_capture_clean)
  show "clean_field (totalAmountDebited d)"
    unfolding d details_of_def extractTotalAmount_def by (simp add: trimmed_capture_clean)
  show "clean_field (receiver d)"
    unfolding d details_of_def extractReceiver_def by (simp add: trimmed_capture_clean)
  show "clean_field (payer d)"
    unfolding d details_of_def extractPayer_def by (simp add: trimmed_capture_clean)
next
  fix c :: string and cs :: "string list"
  assume "trim c = []"
  then show "trimmed_capture (Some (c # cs)) = None" by (simp add: trimmed_capture_def)
qed

theorem string_fields_trimmed_or_absent_witness:
  "extractReceiver ''Receiver   ACME Corporation Ltd   '' = Some ''ACME Corporation Ltd''
   \<and> clean_field (Some ''ACME Corporation Ltd'')
   \<and> exec RECEIVER ''Payer: none   Receiver  '' = Some ['' '']
   \<and> trim '' '' = []
   \<and> extractReceiver ''Payer: none   Receiver  '' = None"
proof -
  have a: "extractReceiver ''Receiver   ACME Corporation Ltd   '' = Some ''ACME Corporation Ltd''"
    by code_simp
  have b: "exec RECEIVER ''Payer: none   Receiver  '' = Some ['' '']"
    by code_simp
  have c: "trim '' '' = []" by code_simp
  have "clean_field (extractReceiver ''Receiver   ACME Corporation Ltd   '')"
    using string_fields_trimmed_or_absent
      [of "''Receiver   ACME Corporation Ltd   ''" parse_receipt_date 0
          "\<lparr>cbeAccountNumber = ''12345678'', maxTransactionAgeHours = None,
            rejectUnauthorized = None\<rparr>"]
    by blast
  moreover have "trimmed_capture (Some ['' '']) = None"
    using string_fields_trimmed_or_absent
      [of "''Payer: none   Receiver  ''" parse_receipt_date 0
          "\<lparr>cbeAccountNumber = ''12345678'', maxTransactionAgeHours = None,
            rejectUnauthorized = None\<rparr>"] c
    by blast
  ultimately show ?thesis using a b c by (simp add: extractReceiver_def)
qed

section \<open>The timestamp and the captures\<close>

text \<open>
  Claim C3. Whenever the timestamp pattern matches, the captured text has the form
  \<^verbatim>\<open>MM/DD/YYYY, H:MM:SS AM|PM\<close> and the timestamp field is the date object made
  from what the parser returns for it. The field is then present whatever the parser
  returns: where the captured text is unparseable the field holds an Invalid Date, it is
  not absent, and with a reference number present the extraction succeeds and returns
  the record with the Invalid Date in it.
\<close>

theorem unparseable_date_stays_present:
  assumes "exec PAYMENT_DATE_TIME text = Some cs"
  shows "\<exists>c. cs = [c] \<and> receipt_date_format c
           \<and> one_line_capture ''Payment Date & Time'' text c
           \<and> extractPaymentDateTime parse text = Some (Date (parse c))
           \<and> (parse c = None \<longrightarrow>
                 paymentDateTime (details_of parse text) = Some (Date None)
                 \<and> (extractReferenceNumber text \<noteq> None \<longrightarrow>
                       extractTransactionDetails parse now text config
                         = Inr (details_of parse text)))"
proof -
  obtain c where c: "cs = [c]" "receipt_date_format c"
      "one_line_capture ''Payment Date & Time'' text c" "trim c = c"
    using exec_date_capture [OF assms] by blast
  have ne: "c \<noteq> []" using receipt_date_format_chars [OF c(2)] by simp
  have x: "exec PAYMENT_DATE_TIME text = Some [c]" using assms c(1) by simp
  have e: "extractPaymentDateTime parse text = Some (Date (parse c))"
    using x c(4) ne by (rule extractPaymentDateTime_capture)
  show ?thesis
  proof (intro exI conjI impI)
    show "cs = [c]" by (rule c(1))
    show "receipt_date_format c" by (rule c(2))
    show "one_line_capture ''Payment Date & Time'' text c" by (rule c(3))
    show "extractPaymentDateTime parse text = Some (Date (parse c))" by (rule e)
  next
    assume n: "parse c = None"
    show "paymentDateTime (details_of parse text) = Some (Date None)"
      using invalid_date_accepted [OF n e] by (rule conjunct1)
  next
    assume n: "parse c = None" and r: "extractReferenceNumber text \<noteq> None"
    show "extractTransactionDetails parse now text config = Inr (details_of parse text)"
      using invalid_date_accepted [OF n e, of now config] r by blast
  qed
qed

theorem unparseable_date_stays_present_witness:
  "exec PAYMENT_DATE_TIME
     (''Reference No. (VAT Invoice No) FT25200VMC5N'' @ [CHR 0x0A]
        @ ''Payment Date & Time 13/45/2023, 1:00:00 PM'')
     = Some [''13/45/2023, 1:00:00 PM'']
   \<and> parse_receipt_date ''13/45/2023, 1:00:00 PM'' = None
   \<and> extractPaymentDateTime parse_receipt_date
        (''Reference No. (VAT Invoice No) FT25200VMC5N'' @ [CHR 0x0A]
           @ ''Payment Date & Time 13/45/2023, 1:00:00 PM'')
       = Some (Date None)
   \<and> extractTransactionDetails parse_receipt_date 1703514645000
        (''Reference No. (VAT Invoice No) FT25200VMC5N'' @ [CHR 0x0A]
           @ ''Payment Date & Time 13/45/2023, 1:00:00 PM'')
        \<lparr>cbeAccountNumber = ''12345678'', maxTransactionAgeHours = None,
          rejectUnauthorized = None\<rparr>
       = Inr \<lparr>transactionRefNumber = Some ''FT25200VMC5N'',
               paymentDateTime = Some (Date None), totalAmountDebited = None,
               receiver = None, payer = None\<rparr>"
proof -
  let ?text = "''Reference No. (VAT Invoice No) FT25200VMC5N'' @ [CHR 0x0A]
        @ ''Payment Date & Time 13/45/2023, 1:00:00 PM''"
  let ?config = "\<lparr>cbeAccountNumber = ''12345678'', maxTransactionAgeHours = None,
          rejectUnauthorized = None\<rparr>"
  have x: "exec PAYMENT_DATE_TIME ?text = Some [''13/45/2023, 1:00:00 PM'']"
    by code_simp
  have p: "parse_receipt_date ''13/45/2023, 1:00:00 PM'' = None"
    by code_simp
  have r: "extractReferenceNumber ?text = Some ''FT25200VMC5N''"
    by code_simp
  have a: "extractTotalAmount ?text = None"
    by code_simp
  have b: "extractReceiver ?text = None"
    by code_simp
  have c: "extractPayer ?text = None"
    by code_simp
  have "extractPaymentDateTime parse_receipt_date ?text = Some (Date None)
      \<and> extractTransactionDetails parse_receipt_date 1703514645000 ?text ?config
          = Inr (details_of parse_receipt_date ?text)"
    using unparseable_date_stays_present [OF x, of parse_receipt_date 1703514645000 ?config] p r
    by auto
  then show ?thesis using x p r a b c by (simp add: details_of_def)
qed

text \<open>
  Claim C6, as stated, confines each capture to the remainder of the line of its label.
  The white space after a label may include line breaks: with the label \<open>Receiver\<close>
  alone on its line, the remainder of that line is empty and the capture is the next
  line. The capture of the amount may itself contain a line break before the currency
  code.
\<close>

theorem capture_beyond_label_line_counterexample:
  "label_line_remainder ''Receiver'' (''Receiver'' @ [CHR 0x0A] @ ''John Doe'') = Some []
   \<and> exec RECEIVER (''Receiver'' @ [CHR 0x0A] @ ''John Doe'') = Some [''John Doe'']
   \<and> extractReceiver (''Receiver'' @ [CHR 0x0A] @ ''John Doe'') = Some ''John Doe''
   \<and> exec TOTAL_AMOUNT
        (''Total amount debited from customers account 1,500.00'' @ [CHR 0x0A] @ ''ETB'')
       = Some [''1,500.00'' @ [CHR 0x0A] @ ''ETB'']"
  by code_simp

text \<open>
  Claim C6, amended. The captures of the reference, the receiver and the payer are each
  the remainder of one line: after the label and the white space that follows it, with
  no line terminator inside, up to the next line terminator or the end of the text. The
  capture of the timestamp comes after its label and white space and has no line
  terminator inside. A field whose label does not occur in the text is absent.
\<close>

theorem captures_stay_on_one_line:
  "(\<forall>cs. exec REFERENCE_NUMBER text = Some cs \<longrightarrow>
        (\<exists>c. cs = [c] \<and> line_capture ''Reference No. (VAT Invoice No)'' text c))
   \<and> (\<forall>cs. exec RECEIVER text = Some cs \<longrightarrow>
        (\<exists>c. cs = [c] \<and> line_capture ''Receiver'' text c))
   \<and> (\<forall>cs. exec PAYER text = Some cs \<longrightarrow>
        (\<exists>c. cs = [c] \<and> line_capture ''Payer'' text c))
   \<and> (\<forall>cs. exec PAYMENT_DATE_TIME text = Some cs \<longrightarrow>
        (\<exists>c. cs = [c] \<and> one_line_capture ''Payment Date & Time'' text c))
   \<and> (\<not> occurs_in ''Reference No. (VAT Invoice No)'' text \<longrightarrow>
        extractReferenceNumber text = None)
   \<and> (\<not> occurs_in ''Payment Date & Time'' text \<longrightarrow>
        extractPaymentDateTime parse text = None)
   \<and> (\<not> occurs_in ''Total amount debited from customers account'' text \<longrightarrow>
        extractTotalAmount text = None)
   \<and> (\<not> occurs_in ''Receiver'' text \<longrightarrow> extractReceiver text = None)
   \<and> (\<not> occurs_in ''Payer'' text \<longrightarrow> extractPayer text = None)"
proof (intro conjI allI impI)
  fix cs
  show "\<exists>c. cs = [c] \<and> line_capture ''Reference No. (VAT Invoice No)'' text c"
    if "exec REFERENCE_NUMBER text = Some cs"
    using that unfolding regex_labelled by (rule exec_line_capture)
  show "\<exists>c. cs = [c] \<and> line_capture ''Receiver'' text c" if "exec RECEIVER text = Some cs"
    using that unfolding regex_labelled by (rule exec_line_capture)
  show "\<exists>c. cs = [c] \<and> line_capture ''Payer'' text c" if "exec PAYER text = Some cs"
    using that unfolding regex_labelled by (rule exec_line_capture)
  show "\<exists>c. cs = [c] \<and> one_line_capture ''Payment Date & Time'' text c"
    if "exec PAYMENT_DATE_TIME text = Some cs"
    using exec_date_capture [OF that] by blast
next
  show "extractReferenceNumber text = None"
    if "\<not> occurs_in ''Reference No. (VAT Invoice No)'' text"
    using absent_label_no_match [OF that]
    by (simp add: extractReferenceNumber_def regex_labelled trimmed_capture_def)
  show "extractPaymentDateTime parse text = None"
    if "\<not> occurs_in ''Payment Date & Time'' text"
    using absent_label_no_match [OF that]
    by (simp add: extractPaymentDateTime_def regex_labelled)
  show "extractTotalAmount text = None"
    if "\<not> occurs_in ''Total amount debited from customers account'' text"
    using absent_label_no_match [OF that]
    by (simp add: extractTotalAmount_def regex_labelled trimmed_capture_def)
  show "extractReceiver text = None" if "\<not> occurs_in ''Receiver'' text"
    using absent_label_no_match [OF that]
    by (simp add: extractReceiver_def regex_labelled trimmed_capture_def)
  show "extractPayer text = None" if "\<not> occurs_in ''Payer'' text"
    using absent_label_no_match [OF that]
    by (simp add: extractPayer_def regex_labelled trimmed_capture_def)
qed

theorem captures_stay_on_one_line_witness:
  "exec RECEIVER (''Receiver'' @ [CHR 0x0A] @ ''John Doe'') = Some [''John Doe'']
   \<and> line_capture ''Receiver'' (''Receiver'' @ [CHR 0x0A] @ ''John Doe'') ''John Doe''
   \<and> \<not> occurs_in ''Payer'' (''Receiver'' @ [CHR 0x0A] @ ''John Doe'')
   \<and> extractPayer (''Receiver'' @ [CHR 0x0A] @ ''John Doe'') = None"
proof -
  let ?text = "''Receiver'' @ [CHR 0x0A] @ ''John Doe''"
  have x: "exec RECEIVER ?text = Some [''John Doe'']" by code_simp
  have "after_first ''Payer'' ?text = None" by code_simp
  then have n: "\<not> occurs_in ''Payer'' ?text" by (simp only: occurs_in_code simp_thms)
  have "line_capture ''Receiver'' ?text ''John Doe''"
    using captures_stay_on_one_line [of ?text parse_receipt_date] x by blast
  moreover have "extractPayer ?text = None"
    using captures_stay_on_one_line [of ?text parse_receipt_date] n by blast
  ultimately show ?thesis using x n by blast
qed

end
